theory Spec2Isabelle
  imports Complex_Main "HOL-Library.AList" "HOL-Library.Multiset" "HOL-Library.Log_Nat"
begin

section \<open>The cache store (class ApiCache)\<close>

text \<open>
  \<open>Date.now()\<close> yields whole milliseconds: a clock reading, and so the \<open>timestamp\<close>
  of an entry, is an \<open>int\<close>. \<open>ttl\<close> and \<open>maxSize\<close> are numbers the caller chooses and the
  constructor keeps as they are: they are finite doubles, modelled by their values in
  \<open>rat\<close>, and \<open>expireAt\<close>, a sum of doubles, is one too. Comparisons of doubles are
  exact; the sum is rounded (\<open>js_add\<close>). Identifiers and error codes are \<open>int\<close>.
  A value of type \<open>T | null\<close> is a \<open>'v jsval\<close>. The \<open>Map\<close> of the class is an
  association list in iteration order: \<open>Map.set\<close> on a present key replaces the entry in
  place, on a new key appends (\<open>AList.update\<close>); \<open>Map.delete\<close> removes the key
  (\<open>AList.delete\<close>). Every reading of \<open>Date.now()\<close> is an explicit argument \<open>now\<close>.
\<close>

text \<open>
  The addition of two doubles: the exact sum, rounded to the nearest number with a
  significand of 53 bits, a tie going to the even significand. \<open>binade a\<close> is the
  exponent \<open>e\<close> with \<open>2 ^ e \<le> a < 2 ^ (e + 1)\<close>, for \<open>a > 0\<close>. The exponent is not
  bounded: sums beyond the largest double (about \<open>1.8e308\<close>) are outside the model.
\<close>

definition round_half_even :: "rat \<Rightarrow> int" where
  "round_half_even y =
     (let f = \<lfloor>y\<rfloor>; r = y - of_int f
      in if r < 1 / 2 then f
         else if 1 / 2 < r then f + 1
         else if even f then f else f + 1)"

definition binade :: "rat \<Rightarrow> int" where
  "binade a = (if 1 \<le> a then bitlen \<lfloor>a\<rfloor> - 1 else - bitlen (\<lceil>1 / a\<rceil> - 1))"

definition to_double :: "rat \<Rightarrow> rat" where
  "to_double x =
     (if x = 0 then 0
      else
        (let a = \<bar>x\<bar>;
             e = binade a;
             y = (if 52 \<le> e
                  then of_int (round_half_even (a / 2 ^ nat (e - 52))) * 2 ^ nat (e - 52)
                  else of_int (round_half_even (a * 2 ^ nat (52 - e))) / 2 ^ nat (52 - e))
         in if x < 0 then - y else y))"

definition js_add :: "rat \<Rightarrow> rat \<Rightarrow> rat" where
  "js_add a b = to_double (a + b)"

datatype 'v jsval = Null | Val 'v

record 'v CacheEntry =
  data :: "'v jsval"
  timestamp :: int
  expireAt :: rat

text \<open>The interface \<open>CacheConfig\<close>: every field may be absent.\<close>

record CacheConfig =
  ttl_opt :: "rat option"
  maxSize_opt :: "rat option"
  enabled_opt :: "bool option"

text \<open>\<open>Required<CacheConfig>\<close>, the configuration the store keeps.\<close>

record RequiredCacheConfig =
  ttl :: rat
  maxSize :: rat
  enabled :: bool

record 'v ApiCache =
  cache :: "(string \<times> 'v CacheEntry) list"
  config :: RequiredCacheConfig

text \<open>
  \<open>x || d\<close> on an optional number: an absent value and \<open>0\<close> are falsy (\<open>NaN\<close>, which
  is falsy too and has no value in \<open>rat\<close>, is an absent value here).
\<close>

definition or_default :: "rat option \<Rightarrow> rat \<Rightarrow> rat" where
  "or_default x d = (case x of None \<Rightarrow> d | Some n \<Rightarrow> if n = 0 then d else n)"

definition ApiCache_constructor :: "CacheConfig \<Rightarrow> 'v ApiCache" where
  "ApiCache_constructor c =
     \<lparr>cache = [],
      config = \<lparr>ttl = or_default (ttl_opt c) (5 * 60 * 1000),
                maxSize = or_default (maxSize_opt c) 100,
                enabled = (enabled_opt c \<noteq> Some False)\<rparr>\<rparr>"

text \<open>
  \<open>cleanup\<close>: the loop over the entries, deleting each expired one from the map.
\<close>

fun cleanup_loop ::
  "(string \<times> 'v CacheEntry) list \<Rightarrow> int \<Rightarrow> (string \<times> 'v CacheEntry) list
     \<Rightarrow> (string \<times> 'v CacheEntry) list" where
  "cleanup_loop [] now c = c"
| "cleanup_loop ((key, entry) # rest) now c =
     (if of_int now \<ge> expireAt entry then cleanup_loop rest now (AList.delete key c)
      else cleanup_loop rest now c)"

definition ApiCache_cleanup :: "int \<Rightarrow> 'v ApiCache \<Rightarrow> 'v ApiCache" where
  "ApiCache_cleanup now s = s\<lparr>cache := cleanup_loop (cache s) now (cache s)\<rparr>"

text \<open>
  \<open>evictIfNeeded\<close>. \<open>oldestTime\<close> starts at \<open>Infinity\<close> (\<open>None\<close>), \<open>oldestKey\<close>
  at the empty string; the scan keeps the first entry of the smallest timestamp. The
  entry is deleted only when \<open>oldestKey\<close> is truthy, that is, not the empty string.
\<close>

fun earlier :: "int \<Rightarrow> int option \<Rightarrow> bool" where
  "earlier t None = True"
| "earlier t (Some oldestTime) = (t < oldestTime)"

fun scan_oldest ::
  "(string \<times> 'v CacheEntry) list \<Rightarrow> string \<Rightarrow> int option \<Rightarrow> string" where
  "scan_oldest [] oldestKey oldestTime = oldestKey"
| "scan_oldest ((key, entry) # rest) oldestKey oldestTime =
     (if earlier (timestamp entry) oldestTime
      then scan_oldest rest key (Some (timestamp entry))
      else scan_oldest rest oldestKey oldestTime)"

definition ApiCache_evictIfNeeded :: "'v ApiCache \<Rightarrow> 'v ApiCache" where
  "ApiCache_evictIfNeeded s =
     (if of_nat (length (cache s)) \<ge> maxSize (config s) then
        (let oldestKey = scan_oldest (cache s) [] None
         in if oldestKey \<noteq> [] then s\<lparr>cache := AList.delete oldestKey (cache s)\<rparr> else s)
      else s)"

definition ApiCache_get :: "string \<Rightarrow> int \<Rightarrow> 'v ApiCache \<Rightarrow> 'v jsval \<times> 'v ApiCache" where
  "ApiCache_get key now s =
     (if \<not> enabled (config s) then (Null, s)
      else case map_of (cache s) key of
             None \<Rightarrow> (Null, s)
           | Some entry \<Rightarrow>
               if of_int now \<ge> expireAt entry
               then (Null, s\<lparr>cache := AList.delete key (cache s)\<rparr>)
               else (data entry, s))"

definition ApiCache_set :: "string \<Rightarrow> 'v jsval \<Rightarrow> int \<Rightarrow> 'v ApiCache \<Rightarrow> 'v ApiCache" where
  "ApiCache_set key d now s =
     (if \<not> enabled (config s) then s
      else
        (let entry = \<lparr>data = d, timestamp = now,
                      expireAt = js_add (of_int now) (ttl (config s))\<rparr>;
             s1 = ApiCache_evictIfNeeded s
         in s1\<lparr>cache := AList.update key entry (cache s1)\<rparr>))"

definition ApiCache_delete :: "string \<Rightarrow> 'v ApiCache \<Rightarrow> bool \<times> 'v ApiCache" where
  "ApiCache_delete key s =
     (map_of (cache s) key \<noteq> None, s\<lparr>cache := AList.delete key (cache s)\<rparr>)"

definition ApiCache_clear :: "'v ApiCache \<Rightarrow> 'v ApiCache" where
  "ApiCache_clear s = s\<lparr>cache := []\<rparr>"

record CacheStats =
  stats_size :: nat
  stats_maxSize :: rat
  stats_ttl :: rat
  stats_enabled :: bool
  stats_keys :: "string list"

definition ApiCache_getStats :: "int \<Rightarrow> 'v ApiCache \<Rightarrow> CacheStats \<times> 'v ApiCache" where
  "ApiCache_getStats now s =
     (let s1 = ApiCache_cleanup now s
      in (\<lparr>stats_size = length (cache s1),
           stats_maxSize = maxSize (config s1),
           stats_ttl = ttl (config s1),
           stats_enabled = enabled (config s1),
           stats_keys = map fst (cache s1)\<rparr>, s1))"

text \<open>
  A call of one of the public operations; \<open>run\<close> applies a sequence of calls, each
  paired with the clock reading of \<open>Date.now()\<close> during the call (\<open>delete\<close> and
  \<open>clear\<close> do not read the clock).
\<close>

datatype 'v cache_op =
    Get string
  | Set string "'v jsval"
  | Delete string
  | Clear
  | GetStats

fun apply_op :: "'v cache_op \<times> int \<Rightarrow> 'v ApiCache \<Rightarrow> 'v ApiCache" where
  "apply_op (Get key, now) s = snd (ApiCache_get key now s)"
| "apply_op (Set key d, now) s = ApiCache_set key d now s"
| "apply_op (Delete key, now) s = snd (ApiCache_delete key s)"
| "apply_op (Clear, now) s = ApiCache_clear s"
| "apply_op (GetStats, now) s = snd (ApiCache_getStats now s)"

fun run :: "('v cache_op \<times> int) list \<Rightarrow> 'v ApiCache \<Rightarrow> 'v ApiCache" where
  "run [] s = s"
| "run (c # cs) s = run cs (apply_op c s)"

fun set_key_of :: "'v cache_op \<times> int \<Rightarrow> string option" where
  "set_key_of (Set key d, now) = Some key"
| "set_key_of _ = None"


section \<open>Keys and the caching wrapper\<close>

text \<open>
  \<open>generateKey\<close> joins the method name and \<open>JSON.stringify(args)\<close>.
  \<open>JSON.stringify\<close> is a parameter of the generic wrapper; for the argument lists
  the repository itself passes (one number) it is \<open>JSON_stringify\<close>.
\<close>

definition ApiCache_generateKey :: "('a \<Rightarrow> string) \<Rightarrow> string \<Rightarrow> 'a \<Rightarrow> string" where
  "ApiCache_generateKey stringify method args = method @ '':'' @ stringify args"

fun show_nat :: "nat \<Rightarrow> string" where
  "show_nat n =
     (if n < 10 then [''0123456789'' ! n]
      else show_nat (n div 10) @ [''0123456789'' ! (n mod 10)])"

declare show_nat.simps [simp del]

definition show_int :: "int \<Rightarrow> string" where
  "show_int i = (if i < 0 then ''-'' @ show_nat (nat (- i)) else show_nat (nat i))"

fun join_commas :: "string list \<Rightarrow> string" where
  "join_commas [] = []"
| "join_commas [x] = x"
| "join_commas (x # y # ys) = x @ '','' @ join_commas (y # ys)"

definition JSON_stringify :: "int list \<Rightarrow> string" where
  "JSON_stringify args = ''['' @ join_commas (map show_int args) @ '']''"

section \<open>Errors\<close>

text \<open>
  What a function of the module throws: an \<open>ApiError\<close> (errcode, errmsg and the
  message given to \<open>super\<close>) or another \<open>Error\<close> with its message; a failure of the
  HTTP client is of the second kind.
\<close>

datatype error = ApiError int string string | Error string

fun message :: "error \<Rightarrow> string" where
  "message (ApiError code emsg msg) = msg"
| "message (Error msg) = msg"

definition new_ApiError :: "int \<Rightarrow> string \<Rightarrow> string \<Rightarrow> error" where
  "new_ApiError code emsg msg =
     ApiError code emsg
       (if msg \<noteq> [] then msg
        else ''API Error: '' @ emsg @ '' (errcode: '' @ show_int code @ '')'')"

text \<open>
  \<open>withCache\<close>. The world \<open>'w\<close> is everything outside the store: \<open>now\<close> reads the
  clock, \<open>fn\<close> is the wrapped asynchronous function, whose promise is fulfilled
  (\<open>Inr\<close>) or rejected (\<open>Inl\<close>). The clock is read before each cache operation; the
  operation uses the reading where the source calls \<open>Date.now()\<close>.
\<close>

definition ApiCache_withCache ::
  "('w \<Rightarrow> int \<times> 'w) \<Rightarrow> ('a \<Rightarrow> string) \<Rightarrow> string \<Rightarrow> ('a \<Rightarrow> 'w \<Rightarrow> (error + 'v jsval) \<times> 'w)
     \<Rightarrow> 'a \<Rightarrow> 'w \<Rightarrow> 'v ApiCache \<Rightarrow> (error + 'v jsval) \<times> 'w \<times> 'v ApiCache" where
  "ApiCache_withCache now stringify method fn args w s =
     (let key = ApiCache_generateKey stringify method args;
          (t1, w1) = now w;
          (cached, s1) = ApiCache_get key t1 s
      in case cached of
           Val v \<Rightarrow> (Inr cached, w1, s1)
         | Null \<Rightarrow>
             (case fn args w1 of
                (Inl e, w2) \<Rightarrow> (Inl e, w2, s1)
              | (Inr result, w2) \<Rightarrow>
                  (let (t2, w3) = now w2
                   in (Inr result, w3, ApiCache_set key result t2 s1))))"

section \<open>Responses of the origin and the single-item fetches\<close>

record 'a ApiResponse =
  errcode :: int
  errmsg :: string
  resp_data :: 'a

definition checkApiResponse :: "'a ApiResponse \<Rightarrow> error + 'a" where
  "checkApiResponse response =
     (if errcode response = 0 then Inr (resp_data response)
      else Inl (new_ApiError (errcode response) (errmsg response) []))"

record ApiCategoryChild =
  child_add_time :: int
  child_catid :: int
  child_edit_uid :: int
  child_index :: int
  child_method :: string
  child_path :: string
  child_project_id :: int
  child_status :: string
  child_tag :: "string list"
  child_title :: string
  child_uid :: int
  child_up_time :: int
  child_id :: int

record ApiCategoryItem =
  cat_parent_id :: int
  cat_index :: int
  cat_id :: int
  cat_name :: string
  cat_project_id :: int
  cat_desc :: string
  cat_uid :: int
  cat_add_time :: int
  cat_up_time :: int
  cat_v :: int
  cat_list :: "ApiCategoryChild list"

text \<open>
  The one cache of the module holds interface lists and interface details (\<open>ApiData\<close>,
  a type parameter: no function below reads its fields).
\<close>

datatype 'd payload = CategoryList "ApiCategoryItem list" | Detail 'd

text \<open>
  The collaborators: the clock, the two requests of the HTTP client (a rejected promise
  is \<open>Inl\<close>), and, for requests in flight together, which of the \<open>n\<close> pending ones
  settles next (taken modulo \<open>n\<close>). The cache and the client of the module are taken
  as initialised; the cache is passed and returned explicitly.
\<close>

record ('w, 'd) runtime =
  Date_now :: "'w \<Rightarrow> int \<times> 'w"
  get_list_menu :: "int \<Rightarrow> 'w \<Rightarrow> (error + ApiCategoryItem list ApiResponse) \<times> 'w"
  get_interface :: "int \<Rightarrow> 'w \<Rightarrow> (error + 'd ApiResponse) \<times> 'w"
  next_settled :: "nat \<Rightarrow> 'w \<Rightarrow> nat \<times> 'w"

text \<open>
  The messages of the generic errors, as the UTF-8 bytes of the source's literals.
\<close>

definition list_unknown_error :: string where
  "list_unknown_error =
     [CHR 0xE8, CHR 0x8E, CHR 0xB7, CHR 0xE5, CHR 0x8F, CHR 0x96,
      CHR 0xE6, CHR 0x8E, CHR 0xA5, CHR 0xE5, CHR 0x8F, CHR 0xA3,
      CHR 0xE5, CHR 0x88, CHR 0x97, CHR 0xE8, CHR 0xA1, CHR 0xA8,
      CHR 0xE6, CHR 0x97, CHR 0xB6, CHR 0xE5, CHR 0x8F, CHR 0x91,
      CHR 0xE7, CHR 0x94, CHR 0x9F, CHR 0xE6, CHR 0x9C, CHR 0xAA,
      CHR 0xE7, CHR 0x9F, CHR 0xA5, CHR 0xE9, CHR 0x94, CHR 0x99,
      CHR 0xE8, CHR 0xAF, CHR 0xAF]"

definition detail_unknown_error :: string where
  "detail_unknown_error =
     [CHR 0xE8, CHR 0x8E, CHR 0xB7, CHR 0xE5, CHR 0x8F, CHR 0x96,
      CHR 0xE6, CHR 0x8E, CHR 0xA5, CHR 0xE5, CHR 0x8F, CHR 0xA3,
      CHR 0xE8, CHR 0xAF, CHR 0xA6, CHR 0xE6, CHR 0x83, CHR 0x85,
      CHR 0xE6, CHR 0x97, CHR 0xB6, CHR 0xE5, CHR 0x8F, CHR 0x91,
      CHR 0xE7, CHR 0x94, CHR 0x9F, CHR 0xE6, CHR 0x9C, CHR 0xAA,
      CHR 0xE7, CHR 0x9F, CHR 0xA5, CHR 0xE9, CHR 0x94, CHR 0x99,
      CHR 0xE8, CHR 0xAF, CHR 0xAF]"

text \<open>The \<open>catch\<close> blocks: an \<open>ApiError\<close> is thrown again, anything else replaced.\<close>

fun getInterfaceList_catch :: "error \<Rightarrow> error" where
  "getInterfaceList_catch (ApiError code emsg msg) = ApiError code emsg msg"
| "getInterfaceList_catch (Error msg) = Error list_unknown_error"

fun getGroupInfo_catch :: "error \<Rightarrow> error" where
  "getGroupInfo_catch (ApiError code emsg msg) = ApiError code emsg msg"
| "getGroupInfo_catch (Error msg) = Error detail_unknown_error"

definition getInterfaceList ::
  "('w, 'd) runtime \<Rightarrow> int \<Rightarrow> 'w \<Rightarrow> 'd payload ApiCache
     \<Rightarrow> (error + 'd payload) \<times> 'w \<times> 'd payload ApiCache" where
  "getInterfaceList rt projectId w s =
     (let cacheKey = ApiCache_generateKey JSON_stringify ''getInterfaceList'' [projectId];
          (t1, w1) = Date_now rt w;
          (cached, s1) = ApiCache_get cacheKey t1 s
      in case cached of
           Val v \<Rightarrow> (Inr v, w1, s1)
         | Null \<Rightarrow>
             (case get_list_menu rt projectId w1 of
                (Inl e, w2) \<Rightarrow> (Inl (getInterfaceList_catch e), w2, s1)
              | (Inr response, w2) \<Rightarrow>
                  (case checkApiResponse response of
                     Inl e \<Rightarrow> (Inl (getInterfaceList_catch e), w2, s1)
                   | Inr result \<Rightarrow>
                       (let (t2, w3) = Date_now rt w2
                        in (Inr (CategoryList result), w3,
                            ApiCache_set cacheKey (Val (CategoryList result)) t2 s1)))))"

text \<open>
  \<open>getGroupInfo\<close> in the two parts its \<open>await\<close> separates: up to the request
  (\<open>getGroupInfo_begin\<close>: \<open>Val\<close> is a cache hit, \<open>Null\<close> means the request is sent)
  and from the response on (\<open>getGroupInfo_end\<close>).
\<close>

definition getGroupInfo_begin ::
  "('w, 'd) runtime \<Rightarrow> int \<Rightarrow> 'w \<Rightarrow> 'd payload ApiCache
     \<Rightarrow> 'd payload jsval \<times> 'w \<times> 'd payload ApiCache" where
  "getGroupInfo_begin rt id' w s =
     (let cacheKey = ApiCache_generateKey JSON_stringify ''getGroupInfo'' [id'];
          (t1, w1) = Date_now rt w;
          (cached, s1) = ApiCache_get cacheKey t1 s
      in (cached, w1, s1))"

definition getGroupInfo_end ::
  "('w, 'd) runtime \<Rightarrow> int \<Rightarrow> 'w \<Rightarrow> 'd payload ApiCache
     \<Rightarrow> (error + 'd payload) \<times> 'w \<times> 'd payload ApiCache" where
  "getGroupInfo_end rt id' w s =
     (let cacheKey = ApiCache_generateKey JSON_stringify ''getGroupInfo'' [id']
      in case get_interface rt id' w of
           (Inl e, w1) \<Rightarrow> (Inl (getGroupInfo_catch e), w1, s)
         | (Inr response, w1) \<Rightarrow>
             (case checkApiResponse response of
                Inl e \<Rightarrow> (Inl (getGroupInfo_catch e), w1, s)
              | Inr result \<Rightarrow>
                  (let (t2, w2) = Date_now rt w1
                   in (Inr (Detail result), w2,
                       ApiCache_set cacheKey (Val (Detail result)) t2 s))))"

definition getGroupInfo ::
  "('w, 'd) runtime \<Rightarrow> int \<Rightarrow> 'w \<Rightarrow> 'd payload ApiCache
     \<Rightarrow> (error + 'd payload) \<times> 'w \<times> 'd payload ApiCache" where
  "getGroupInfo rt id' w s =
     (case getGroupInfo_begin rt id' w s of
        (Val v, w1, s1) \<Rightarrow> (Inr v, w1, s1)
      | (Null, w1, s1) \<Rightarrow> getGroupInfo_end rt id' w1 s1)"


section \<open>The batch operation and the preload\<close>

text \<open>
  \<open>batchGetGroupInfo\<close> returns \<open>results\<close> and prints \<open>errors\<close>. \<open>awaited\<close> lists,
  for each \<open>await\<close> of the loop, the identifiers whose fetches that \<open>await\<close> waits for.
\<close>

record 'd BatchLog =
  results :: "'d payload list"
  errors :: "(int \<times> string) list"
  awaited :: "int list list"

fun batch_loop ::
  "('w, 'd) runtime \<Rightarrow> int list \<Rightarrow> 'd BatchLog \<Rightarrow> 'w \<Rightarrow> 'd payload ApiCache
     \<Rightarrow> 'd BatchLog \<times> 'w \<times> 'd payload ApiCache" where
  "batch_loop rt [] b w s = (b, w, s)"
| "batch_loop rt (id' # ids) b w s =
     (case getGroupInfo rt id' w s of
        (Inr apiData, w1, s1) \<Rightarrow>
          batch_loop rt ids
            (b\<lparr>results := results b @ [apiData], awaited := awaited b @ [[id']]\<rparr>) w1 s1
      | (Inl e, w1, s1) \<Rightarrow>
          batch_loop rt ids
            (b\<lparr>errors := errors b @ [(id', message e)], awaited := awaited b @ [[id']]\<rparr>) w1 s1)"

definition batchGetGroupInfo ::
  "('w, 'd) runtime \<Rightarrow> int list \<Rightarrow> 'w \<Rightarrow> 'd payload ApiCache
     \<Rightarrow> 'd BatchLog \<times> 'w \<times> 'd payload ApiCache" where
  "batchGetGroupInfo rt ids w s = batch_loop rt ids \<lparr>results = [], errors = [], awaited = []\<rparr> w s"

text \<open>
  The preload. One round is \<open>batch.map(id => getGroupInfo(id).catch(...))\<close> followed by
  \<open>await Promise.all(promises)\<close>: \<open>dispatch_all\<close> runs every call of the batch up to its
  request, in order, and \<open>settle_all\<close> handles the responses in the order in which the
  collaborator delivers them; a rejected fetch is caught and warned about.
\<close>

definition batchSize :: nat where
  "batchSize = 5"

definition slice :: "nat \<Rightarrow> nat \<Rightarrow> 'a list \<Rightarrow> 'a list" where
  "slice i j xs = take (j - i) (drop i xs)"

datatype event = Hit int | Requested int | Responded int

fun dispatch_all ::
  "('w, 'd) runtime \<Rightarrow> int list \<Rightarrow> int list \<Rightarrow> event list \<Rightarrow> 'w \<Rightarrow> 'd payload ApiCache
     \<Rightarrow> int list \<times> event list \<times> 'w \<times> 'd payload ApiCache" where
  "dispatch_all rt [] pending evs w s = (pending, evs, w, s)"
| "dispatch_all rt (id' # batch) pending evs w s =
     (case getGroupInfo_begin rt id' w s of
        (Val v, w1, s1) \<Rightarrow> dispatch_all rt batch pending (evs @ [Hit id']) w1 s1
      | (Null, w1, s1) \<Rightarrow>
          dispatch_all rt batch (pending @ [id']) (evs @ [Requested id']) w1 s1)"

lemma settled_index_shortens:
  "pending \<noteq> [] \<Longrightarrow>
     k mod length pending + (length pending - Suc (k mod length pending)) < length pending"
proof -
  assume "pending \<noteq> []"
  then have "k mod length pending < length pending" by simp
  then show ?thesis by arith
qed

function settle_all ::
  "('w, 'd) runtime \<Rightarrow> int list \<Rightarrow> (int \<times> string) list \<Rightarrow> event list \<Rightarrow> 'w
     \<Rightarrow> 'd payload ApiCache
     \<Rightarrow> (int \<times> string) list \<times> event list \<times> 'w \<times> 'd payload ApiCache" where
  "settle_all rt pending warnings evs w s =
     (if pending = [] then (warnings, evs, w, s)
      else
        (let (k, w1) = next_settled rt (length pending) w;
             i = k mod length pending;
             id' = pending ! i;
             others = take i pending @ drop (Suc i) pending
         in case getGroupInfo_end rt id' w1 s of
              (Inl err, w2, s2) \<Rightarrow>
                settle_all rt others (warnings @ [(id', message err)])
                  (evs @ [Responded id']) w2 s2
            | (Inr v, w2, s2) \<Rightarrow>
                settle_all rt others warnings (evs @ [Responded id']) w2 s2))"
  by pat_completeness auto
termination
  by (relation "measure (\<lambda>(rt, pending, warnings, evs, w, s). length pending)")
     (auto simp: settled_index_shortens)

declare settle_all.simps [simp del]

text \<open>
  What the preload prints and does: the batch of each round, the progress line of each
  round, the warnings for the fetches that failed, the message of an exception caught
  by the outer \<open>catch\<close>, and the events in the order in which they happen (a call that
  hits the cache, a call that sends its request, a response being handled).
\<close>

record PreloadLog =
  rounds :: "int list list"
  progress :: "(nat \<times> nat) list"
  warned :: "(int \<times> string) list"
  caught :: "string option"
  events :: "event list"

function preload_loop ::
  "('w, 'd) runtime \<Rightarrow> int list \<Rightarrow> nat \<Rightarrow> PreloadLog \<Rightarrow> 'w \<Rightarrow> 'd payload ApiCache
     \<Rightarrow> PreloadLog \<times> 'w \<times> 'd payload ApiCache" where
  "preload_loop rt interfaceIds i l w s =
     (if i < length interfaceIds then
        (let batch = slice i (i + batchSize) interfaceIds;
             (pending, evs1, w1, s1) = dispatch_all rt batch [] (events l) w s;
             (warnings, evs2, w2, s2) = settle_all rt pending [] evs1 w1 s1
         in preload_loop rt interfaceIds (i + batchSize)
              (l\<lparr>rounds := rounds l @ [batch],
                 progress := progress l
                   @ [(min (i + batchSize) (length interfaceIds), length interfaceIds)],
                 warned := warned l @ warnings,
                 events := evs2\<rparr>) w2 s2)
      else (l, w, s))"
  by pat_completeness auto
termination
  by (relation "measure (\<lambda>(rt, interfaceIds, i, l, w, s). length interfaceIds - i)")
     (auto simp: batchSize_def)

declare preload_loop.simps [simp del]

definition collect_ids :: "ApiCategoryItem list \<Rightarrow> int list" where
  "collect_ids interfaces = concat (map (\<lambda>category. map child_id (cat_list category)) interfaces)"

text \<open>
  The body of the \<open>try\<close> block (\<open>Inl\<close>: an exception leaves it) and the function with
  its \<open>catch\<close>, which prints the message and returns. A cached value that is not a list
  makes \<open>interfaces.forEach\<close> throw.
\<close>

definition preload_try ::
  "('w, 'd) runtime \<Rightarrow> int \<Rightarrow> 'w \<Rightarrow> 'd payload ApiCache
     \<Rightarrow> (error + PreloadLog) \<times> 'w \<times> 'd payload ApiCache" where
  "preload_try rt projectId w s =
     (case getInterfaceList rt projectId w s of
        (Inl e, w1, s1) \<Rightarrow> (Inl e, w1, s1)
      | (Inr (Detail d), w1, s1) \<Rightarrow>
          (Inl (Error ''interfaces.forEach is not a function''), w1, s1)
      | (Inr (CategoryList interfaces), w1, s1) \<Rightarrow>
          (let (l, w2, s2) =
                 preload_loop rt (collect_ids interfaces) 0
                   \<lparr>rounds = [], progress = [], warned = [], caught = None, events = []\<rparr> w1 s1
           in (Inr l, w2, s2)))"

definition preloadInterfaceData ::
  "('w, 'd) runtime \<Rightarrow> int \<Rightarrow> 'w \<Rightarrow> 'd payload ApiCache
     \<Rightarrow> (error + unit) \<times> PreloadLog \<times> 'w \<times> 'd payload ApiCache" where
  "preloadInterfaceData rt projectId w s =
     (case preload_try rt projectId w s of
        (Inl e, w1, s1) \<Rightarrow>
          (Inr (), \<lparr>rounds = [], progress = [], warned = [], caught = Some (message e), events = []\<rparr>, w1, s1)
      | (Inr l, w1, s1) \<Rightarrow> (Inr (), l, w1, s1))"

section \<open>The command line\<close>

text \<open>
  \<open>getConfigFromArgs\<close>. \<open>parseInt(_, 10)\<close> is a parameter (\<open>None\<close> is \<open>NaN\<close>). An
  absent \<open>args[i + 1]\<close> is the empty string: both are falsy and the value is read only
  when it is truthy. \<open>process.exit(1)\<close> is \<open>Inl 1\<close>.
\<close>

record Config =
  baseURL :: string
  cookie :: string
  requestParams :: "(string \<times> string) list"
  cacheConfig :: CacheConfig

definition startsWith :: "string \<Rightarrow> string \<Rightarrow> bool" where
  "startsWith str p = (take (length p) str = p)"

definition parse_step ::
  "(string \<Rightarrow> int option) \<Rightarrow> string \<Rightarrow> string \<Rightarrow> Config \<Rightarrow> Config \<times> bool" where
  "parse_step parseInt arg nextArg c =
     (if (arg = ''--baseURL'' \<or> arg = ''-u'') \<and> nextArg \<noteq> [] then
        (c\<lparr>baseURL := nextArg\<rparr>, True)
      else if (arg = ''--cookie'' \<or> arg = ''-c'') \<and> nextArg \<noteq> [] then
        (c\<lparr>cookie := nextArg\<rparr>, True)
      else if (arg = ''--cache-ttl'' \<or> arg = ''-t'') \<and> nextArg \<noteq> [] then
        (case parseInt nextArg of
           None \<Rightarrow> (c, True)
         | Some ttlMinutes \<Rightarrow>
             if ttlMinutes > 0
             then (c\<lparr>cacheConfig :=
                      (cacheConfig c)\<lparr>ttl_opt := Some (of_int (ttlMinutes * 60 * 1000))\<rparr>\<rparr>, True)
             else (c, True))
      else if (arg = ''--cache-size'' \<or> arg = ''-s'') \<and> nextArg \<noteq> [] then
        (case parseInt nextArg of
           None \<Rightarrow> (c, True)
         | Some size' \<Rightarrow>
             if size' > 0
             then (c\<lparr>cacheConfig := (cacheConfig c)\<lparr>maxSize_opt := Some (of_int size')\<rparr>\<rparr>, True)
             else (c, True))
      else if arg = ''--no-cache'' then
        (c\<lparr>cacheConfig := (cacheConfig c)\<lparr>enabled_opt := Some False\<rparr>\<rparr>, False)
      else if arg = ''--enable-cache'' then
        (c\<lparr>cacheConfig := (cacheConfig c)\<lparr>enabled_opt := Some True\<rparr>\<rparr>, False)
      else if startsWith arg ''--'' \<and> nextArg \<noteq> [] \<and> \<not> startsWith nextArg ''--'' then
        (c\<lparr>requestParams := AList.update (drop 2 arg) nextArg (requestParams c)\<rparr>, True)
      else (c, False))"

function parse_loop :: "(string \<Rightarrow> int option) \<Rightarrow> string list \<Rightarrow> Config \<Rightarrow> Config" where
  "parse_loop parseInt [] c = c"
| "parse_loop parseInt (arg # rest) c =
     (let nextArg = (case rest of [] \<Rightarrow> [] | n # _ \<Rightarrow> n);
          (c', skip) = parse_step parseInt arg nextArg c
      in parse_loop parseInt (if skip then drop 1 rest else rest) c')"
  by pat_completeness auto
termination
  by (relation "measure (\<lambda>(parseInt, args, c). length args)") auto

definition getConfigFromArgs :: "(string \<Rightarrow> int option) \<Rightarrow> string list \<Rightarrow> int + Config" where
  "getConfigFromArgs parseInt process_argv =
     (let args = drop 2 process_argv;
          c = parse_loop parseInt args
                \<lparr>baseURL = [], cookie = [], requestParams = [],
                 cacheConfig = \<lparr>ttl_opt = Some (5 * 60 * 1000), maxSize_opt = Some 100,
                                enabled_opt = Some True\<rparr>\<rparr>
      in if baseURL c = [] then Inl 1
         else if cookie c = [] then Inl 1
         else Inr c)"


section \<open>Reference notions and sample collaborators\<close>

text \<open>
  What calling \<open>getGroupInfo\<close> on each identifier in turn yields: the outcome of every
  call, with its identifier.
\<close>

fun attempts ::
  "('w, 'd) runtime \<Rightarrow> int list \<Rightarrow> 'w \<Rightarrow> 'd payload ApiCache \<Rightarrow> (int \<times> (error + 'd payload)) list" where
  "attempts rt [] w s = []"
| "attempts rt (id' # ids) w s =
     (case getGroupInfo rt id' w s of (r, w1, s1) \<Rightarrow> (id', r) # attempts rt ids w1 s1)"

fun successes :: "(int \<times> (error + 'a)) list \<Rightarrow> 'a list" where
  "successes [] = []"
| "successes ((i, Inr v) # rest) = v # successes rest"
| "successes ((i, Inl e) # rest) = successes rest"

fun failures :: "(int \<times> (error + 'a)) list \<Rightarrow> (int \<times> string) list" where
  "failures [] = []"
| "failures ((i, Inr v) # rest) = failures rest"
| "failures ((i, Inl e) # rest) = (i, message e) # failures rest"

text \<open>
  A trace of events made of the given rounds, one after the other: in each round every
  identifier of the chunk is dispatched in order (a hit or a request), then the
  responses to the requests of that round are handled, in some order.
\<close>

text \<open>
  The responses one round handles: for the requests in flight, in the order in which
  the collaborator delivers them, the identifier and what \<open>getGroupInfo\<close> makes of its
  response (the value, or the error it throws), with the world and the store after the
  last of them. \<open>preload_responses\<close> lists them for all the rounds of the preload.
\<close>

function settled ::
  "('w, 'd) runtime \<Rightarrow> int list \<Rightarrow> 'w \<Rightarrow> 'd payload ApiCache
     \<Rightarrow> (int \<times> (error + 'd payload)) list \<times> 'w \<times> 'd payload ApiCache" where
  "settled rt pending w s =
     (if pending = [] then ([], w, s)
      else
        (let (k, w1) = next_settled rt (length pending) w;
             i = k mod length pending;
             id' = pending ! i;
             others = take i pending @ drop (Suc i) pending
         in case getGroupInfo_end rt id' w1 s of
              (r, w2, s2) \<Rightarrow>
                (case settled rt others w2 s2 of (rs, w3, s3) \<Rightarrow> ((id', r) # rs, w3, s3))))"
  by pat_completeness auto
termination
  by (relation "measure (\<lambda>(rt, pending, w, s). length pending)")
     (auto simp: settled_index_shortens)

declare settled.simps [simp del]

function preload_responses ::
  "('w, 'd) runtime \<Rightarrow> int list \<Rightarrow> nat \<Rightarrow> 'w \<Rightarrow> 'd payload ApiCache
     \<Rightarrow> (int \<times> (error + 'd payload)) list" where
  "preload_responses rt interfaceIds i w s =
     (if i < length interfaceIds then
        (let batch = slice i (i + batchSize) interfaceIds;
             (pending, evs1, w1, s1) = dispatch_all rt batch [] [] w s;
             (rs, w2, s2) = settled rt pending w1 s1
         in rs @ preload_responses rt interfaceIds (i + batchSize) w2 s2)
      else [])"
  by pat_completeness auto
termination
  by (relation "measure (\<lambda>(rt, interfaceIds, i, w, s). length interfaceIds - i)")
     (auto simp: batchSize_def)

declare preload_responses.simps [simp del]

fun responded :: "event list \<Rightarrow> int list" where
  "responded [] = []"
| "responded (Responded i # evs) = i # responded evs"
| "responded (e # evs) = responded evs"

text \<open>
  The entry of the smallest creation timestamp, the first of them in iteration order
  when several entries share it.
\<close>

fun oldest_entry :: "(string \<times> 'v CacheEntry) list \<Rightarrow> (string \<times> 'v CacheEntry) option" where
  "oldest_entry [] = None"
| "oldest_entry (kv # rest) =
     (case oldest_entry rest of
        None \<Rightarrow> Some kv
      | Some kv' \<Rightarrow> if timestamp (snd kv) \<le> timestamp (snd kv') then Some kv else Some kv')"

text \<open>
  The partition of a list into consecutive chunks of at most \<open>C\<close> elements, in the
  original order.
\<close>

fun chunks :: "nat \<Rightarrow> 'a list \<Rightarrow> 'a list list" where
  "chunks C xs = (if C = 0 \<or> xs = [] then [] else take C xs # chunks C (drop C xs))"

declare chunks.simps [simp del]

fun dispatched :: "int \<Rightarrow> bool \<Rightarrow> event" where
  "dispatched i hit = (if hit then Hit i else Requested i)"

fun rounds_trace :: "int list list \<Rightarrow> event list \<Rightarrow> bool" where
  "rounds_trace [] evs = (evs = [])"
| "rounds_trace (chunk # rest) evs =
     (\<exists>hits arrivals evs'.
        length hits = length chunk \<and>
        evs = map2 dispatched chunk hits @ map Responded arrivals @ evs' \<and>
        mset arrivals = mset (map fst (filter (\<lambda>(i, hit). \<not> hit) (zip chunk hits))) \<and>
        rounds_trace rest evs')"

text \<open>
  Sample collaborators: a clock that advances at every reading, an origin where
  project 1 has the interfaces 1 to 6, project 2 is refused, project 4 has the
  interfaces 6 to 8 and every other project is unreachable, and where interface 7 does
  not exist and interface 8 is unreachable.
\<close>

definition demo_child :: "int \<Rightarrow> ApiCategoryChild" where
  "demo_child i =
     \<lparr>child_add_time = 0, child_catid = 1, child_edit_uid = 0, child_index = 0,
      child_method = ''GET'', child_path = ''/p'', child_project_id = 1,
      child_status = ''done'', child_tag = [], child_title = ''t'', child_uid = 0,
      child_up_time = 0, child_id = i\<rparr>"

definition demo_category :: "int list \<Rightarrow> ApiCategoryItem" where
  "demo_category ids =
     \<lparr>cat_parent_id = 0, cat_index = 0, cat_id = 1, cat_name = ''c'', cat_project_id = 1,
      cat_desc = [], cat_uid = 0, cat_add_time = 0, cat_up_time = 0, cat_v = 0,
      cat_list = map demo_child ids\<rparr>"

definition demo_runtime :: "(nat, int) runtime" where
  "demo_runtime =
     \<lparr>Date_now = (\<lambda>w. (int w, Suc w)),
      get_list_menu = (\<lambda>projectId w.
        if projectId = 1 then
          (Inr \<lparr>errcode = 0, errmsg = ''ok'',
                resp_data = [demo_category [1, 2, 3], demo_category [4, 5, 6]]\<rparr>, Suc w)
        else if projectId = 2 then
          (Inr \<lparr>errcode = 40011, errmsg = ''no permission'', resp_data = []\<rparr>, Suc w)
        else if projectId = 4 then
          (Inr \<lparr>errcode = 0, errmsg = ''ok'', resp_data = [demo_category [6, 7, 8]]\<rparr>, Suc w)
        else (Inl (Error ''Network Error''), Suc w)),
      get_interface = (\<lambda>i w.
        if i = 7 then (Inr \<lparr>errcode = 404, errmsg = ''not found'', resp_data = 0\<rparr>, Suc w)
        else if i = 8 then (Inl (Error ''Network Error''), Suc w)
        else (Inr \<lparr>errcode = 0, errmsg = ''ok'', resp_data = 10 * i\<rparr>, Suc w)),
      next_settled = (\<lambda>n w. (w, Suc w))\<rparr>"

definition demo_store :: "int payload ApiCache" where
  "demo_store = ApiCache_constructor \<lparr>ttl_opt = None, maxSize_opt = None, enabled_opt = None\<rparr>"

definition demo_now :: "nat \<Rightarrow> int \<times> nat" where
  "demo_now w = (int w, Suc w)"

definition demo_fn :: "int list \<Rightarrow> nat \<Rightarrow> (error + int jsval) \<times> nat" where
  "demo_fn args w =
     (if args = [0] then (Inl (Error ''boom''), w + 100)
      else if args = [1] then (Inr Null, w + 100)
      else (Inr (Val (sum_list args)), w + 100))"

definition demo_parseInt :: "string \<Rightarrow> int option" where
  "demo_parseInt = map_of [(''10'', 10), (''200'', 200), (''0'', 0), (''-3'', - 3)]"


section \<open>Properties of the addition of doubles\<close>

text \<open>
  \<open>binade\<close> is the exponent of its argument; the rounding gives the known double
  nearest to one tenth and sends a tie to the even significand.
\<close>

lemma binade_bounds:
  assumes "0 < a"
  shows "2 powi (binade a) \<le> a \<and> a < 2 powi (binade a + 1)"
proof (cases "1 \<le> a")
  case True
  let ?n = "\<lfloor>a\<rfloor>"
  have n: "1 \<le> ?n" using True by simp
  then have pos: "0 < ?n" by simp
  from bitlen_bounds[OF pos]
  have lo: "2 ^ nat (bitlen ?n - 1) \<le> ?n" and hi: "?n < 2 ^ nat (bitlen ?n)" by auto
  have b1: "1 \<le> bitlen ?n"
    using pos bitlen_eq_zero_iff[of ?n] bitlen_nonneg[of ?n] by (cases "bitlen ?n = 0") auto
  have e: "binade a = bitlen ?n - 1" using True by (simp add: binade_def)
  have "(2::rat) powi (bitlen ?n - 1) = of_int (2 ^ nat (bitlen ?n - 1))"
    using b1 by (simp add: power_int_def)
  also have "\<dots> \<le> of_int ?n" using lo by (simp only: of_int_le_iff)
  also have "\<dots> \<le> a" by simp
  finally have low: "2 powi (binade a) \<le> a" using e by simp
  have "?n + 1 \<le> 2 ^ nat (bitlen ?n)" using hi by simp
  then have "(of_int (?n + 1) :: rat) \<le> of_int (2 ^ nat (bitlen ?n))" by (simp only: of_int_le_iff)
  moreover have "a < of_int (?n + 1)" by linarith
  ultimately have "a < of_int (2 ^ nat (bitlen ?n))" by simp
  also have "\<dots> = (2::rat) powi (bitlen ?n)" using b1 by (simp add: power_int_def)
  finally have "a < 2 powi (binade a + 1)" using e by simp
  with low show ?thesis by simp
next
  case False
  then have a1: "a < 1" by simp
  let ?y = "1 / a"
  let ?m = "\<lceil>?y\<rceil>"
  have y1: "1 < ?y" using assms a1 by simp
  then have m2: "2 \<le> ?m" by linarith
  then have pos: "0 < ?m - 1" by simp
  let ?k = "bitlen (?m - 1)"
  from bitlen_bounds[OF pos]
  have lo: "2 ^ nat (?k - 1) \<le> ?m - 1" and hi: "?m - 1 < 2 ^ nat ?k" by auto
  have k1: "1 \<le> ?k"
    using pos bitlen_eq_zero_iff[of "?m - 1"] bitlen_nonneg[of "?m - 1"]
    by (cases "?k = 0") auto
  have e: "binade a = - ?k" using False by (simp add: binade_def)
  have "?m \<le> 2 ^ nat ?k" using hi by simp
  then have "(of_int ?m :: rat) \<le> of_int (2 ^ nat ?k)" by (simp only: of_int_le_iff)
  then have "(of_int ?m :: rat) \<le> 2 ^ nat ?k" by simp
  moreover have "?y \<le> of_int ?m" by (rule le_of_int_ceiling)
  ultimately have "?y \<le> 2 ^ nat ?k" by (rule order_trans[rotated])
  then have "1 \<le> a * 2 ^ nat ?k" using assms by (simp add: field_simps)
  then have "1 / 2 ^ nat ?k \<le> a" by (simp add: field_simps)
  moreover have "(2::rat) powi (- ?k) = 1 / 2 ^ nat ?k"
    using k1 by (simp add: power_int_def field_simps)
  ultimately have low: "2 powi (binade a) \<le> a" using e by simp
  have "(of_int (2 ^ nat (?k - 1)) :: rat) \<le> of_int (?m - 1)" using lo by (simp only: of_int_le_iff)
  moreover have "of_int (?m - 1) < ?y" by linarith
  ultimately have "2 ^ nat (?k - 1) < ?y" by simp
  then have "a * 2 ^ nat (?k - 1) < 1" using assms by (simp add: field_simps)
  then have up: "a < 1 / 2 ^ nat (?k - 1)" by (simp add: field_simps)
  have "(2::rat) powi (- ?k + 1) = 1 / 2 ^ nat (?k - 1)"
  proof (cases "?k = 1")
    case True
    then show ?thesis by simp
  next
    case False
    with k1 have "- ?k + 1 < 0" by simp
    then show ?thesis using k1 by (simp add: power_int_def field_simps nat_diff_distrib)
  qed
  with up have "a < 2 powi (binade a + 1)" using e by simp
  with low show ?thesis by simp
qed

lemma to_double_tenth: "to_double (1 / 10) = 3602879701896397 / 36028797018963968"
  by code_simp

lemma js_add_tie_to_even:
  "js_add 9007199254740992 1 = 9007199254740992"
  "js_add 9007199254740993 2 = 9007199254740996"
  by code_simp+

text \<open>
  A sum that is a whole number of magnitude at most \<open>2 ^ 53\<close> is exact.
\<close>

lemma round_half_even_of_int [simp]: "round_half_even (of_int m) = m"
  by (simp add: round_half_even_def)

lemma to_double_pos_int:
  assumes "1 \<le> n" "n \<le> 2 ^ 53"
  shows "to_double (of_int n) = of_int n"
proof -
  let ?e = "bitlen n - 1"
  have pos: "0 < n" using assms(1) by simp
  from bitlen_bounds[OF pos] have lo: "2 ^ nat ?e \<le> n" and hi: "n < 2 ^ nat (bitlen n)" by auto
  have e0: "0 \<le> ?e" using pos bitlen_eq_zero_iff[of n] bitlen_nonneg[of n] by (cases "bitlen n = 0") auto
  have b: "binade (of_int n) = ?e" using assms(1) by (simp add: binade_def)
  have "(2::int) ^ nat ?e \<le> 2 ^ 53" using lo assms(2) by simp
  then have e53: "nat ?e \<le> 53" by (rule power_le_imp_le_exp[rotated]) simp
  show ?thesis
  proof (cases "52 \<le> ?e")
    case False
    then have "of_int n * (2::rat) ^ nat (52 - ?e) = of_int (n * 2 ^ nat (52 - ?e))" by simp
    then have "round_half_even (of_int n * 2 ^ nat (52 - ?e)) = n * 2 ^ nat (52 - ?e)"
      by (simp only: round_half_even_of_int)
    then show ?thesis using False pos b by (simp add: to_double_def Let_def)
  next
    case True
    then have "nat ?e = 52 \<or> nat ?e = 53" using e53 by auto
    then show ?thesis
    proof
      assume "nat ?e = 52"
      then have "?e = 52" by simp
      then show ?thesis using pos b by (simp add: to_double_def Let_def)
    next
      assume e: "nat ?e = 53"
      then have ee: "?e = 53" by simp
      with lo assms(2) have n: "n = 2 ^ 53" by simp
      have "(of_int n :: rat) / 2 = of_int (2 ^ 52)" unfolding n by simp
      then have "round_half_even (of_int n / 2) = 2 ^ 52" by (simp only: round_half_even_of_int)
      then show ?thesis using pos b ee n by (simp add: to_double_def Let_def)
    qed
  qed
qed

lemma to_double_minus: "to_double (- x) = - to_double x"
  by (simp add: to_double_def Let_def)

lemma to_double_int:
  assumes "\<bar>n\<bar> \<le> 2 ^ 53"
  shows "to_double (of_int n) = of_int n"
proof (cases "n = 0")
  case True
  then show ?thesis by (simp add: to_double_def)
next
  case False
  show ?thesis
  proof (cases "0 < n")
    case True
    with assms show ?thesis by (intro to_double_pos_int) auto
  next
    case neg: False
    with False assms have "1 \<le> - n" "- n \<le> 2 ^ 53" by auto
    then have "to_double (of_int (- n)) = of_int (- n)" by (rule to_double_pos_int)
    then show ?thesis using to_double_minus[of "of_int n"] by simp
  qed
qed

lemma js_add_int:
  "\<bar>a + b\<bar> \<le> 2 ^ 53 \<Longrightarrow> js_add (of_int a) (of_int b) = of_int (a + b)"
  using to_double_int[of "a + b"] by (simp add: js_add_def)

lemma js_add_exact:
  assumes "a + b \<in> \<int>" and "\<bar>a + b\<bar> \<le> 2 ^ 53"
  shows "js_add a b = a + b"
proof -
  from assms(1) obtain n :: int where n: "a + b = of_int n" by (auto elim: Ints_cases)
  with assms(2) have "\<bar>(of_int n :: rat)\<bar> \<le> of_int (2 ^ 53)" by simp
  then have "\<bar>n\<bar> \<le> 2 ^ 53" by (simp only: of_int_abs[symmetric] of_int_le_iff)
  then show ?thesis using to_double_int[of n] n by (simp add: js_add_def)
qed

section \<open>Properties of the cache store\<close>

lemma scan_oldest_mem:
  "scan_oldest es k0 t0 = k0 \<or> scan_oldest es k0 t0 \<in> fst ` set es"
  by (induction es k0 t0 rule: scan_oldest.induct) auto

lemma scan_oldest_nonempty:
  "es \<noteq> [] \<Longrightarrow> scan_oldest es k0 None \<in> fst ` set es"
  using scan_oldest_mem by (cases es) (fastforce)+

lemma length_delete_mem:
  "k \<in> fst ` set al \<Longrightarrow> length (AList.delete k al) < length al"
proof -
  assume "k \<in> fst ` set al"
  then obtain v where "(k, v) \<in> set al" by auto
  then show ?thesis
    unfolding AList.delete_eq by (intro length_filter_less[of "(k, v)"]) auto
qed

lemma length_update_le: "length (AList.update k v al) \<le> Suc (length al)"
  by (induction al) auto

lemma keys_update: "fst ` set (AList.update k v al) = insert k (fst ` set al)"
  by (simp add: AList.dom_update)

lemma cleanup_loop_length: "length (cleanup_loop es now c) \<le> length c"
proof (induction es now c rule: cleanup_loop.induct)
  case (2 key entry rest now c)
  then show ?case using AList.length_delete_le[of key c] by (auto intro: le_trans)
qed simp

lemma cleanup_loop_keys: "fst ` set (cleanup_loop es now c) \<subseteq> fst ` set c"
proof (induction es now c rule: cleanup_loop.induct)
  case (2 key entry rest now c)
  show ?case
  proof (cases "of_int now \<ge> expireAt entry")
    case True
    with 2 have "fst ` set (cleanup_loop rest now (AList.delete key c)) \<subseteq> fst ` set (AList.delete key c)"
      by simp
    also have "\<dots> \<subseteq> fst ` set c" by (rule AList.dom_delete_subset)
    finally show ?thesis using True by simp
  next
    case False
    with 2 show ?thesis by simp
  qed
qed simp

lemma evict_config: "config (ApiCache_evictIfNeeded s) = config s"
  by (simp add: ApiCache_evictIfNeeded_def Let_def)

lemma evict_keys: "fst ` set (cache (ApiCache_evictIfNeeded s)) \<subseteq> fst ` set (cache s)"
  using AList.dom_delete_subset[of "scan_oldest (cache s) [] None" "cache s"]
  by (simp add: ApiCache_evictIfNeeded_def Let_def)

lemma evict_length_lt:
  assumes "maxSize (config s) \<le> of_nat (length (cache s))" and "cache s \<noteq> []"
    and "[] \<notin> fst ` set (cache s)"
  shows "length (cache (ApiCache_evictIfNeeded s)) < length (cache s)"
proof -
  let ?k = "scan_oldest (cache s) [] None"
  have mem: "?k \<in> fst ` set (cache s)" using assms(2) by (rule scan_oldest_nonempty)
  with assms(3) have "?k \<noteq> []" by metis
  with assms(1) have "cache (ApiCache_evictIfNeeded s) = AList.delete ?k (cache s)"
    by (simp add: ApiCache_evictIfNeeded_def Let_def)
  with mem show ?thesis by (simp add: length_delete_mem)
qed

lemma set_bounded:
  assumes "maxSize (config s) = of_int M" and "1 \<le> M" and "int (length (cache s)) \<le> M"
    and "[] \<notin> fst ` set (cache s)"
  shows "int (length (cache (ApiCache_set k d now s))) \<le> M"
proof (cases "enabled (config s)")
  case False
  with assms(3) show ?thesis by (simp add: ApiCache_set_def)
next
  case True
  let ?s1 = "ApiCache_evictIfNeeded s"
  have len: "int (length (cache ?s1)) < M"
  proof (cases "maxSize (config s) \<le> of_nat (length (cache s))")
    case full: True
    then have "(of_int M :: rat) \<le> of_int (int (length (cache s)))" using assms(1) by simp
    then have "M \<le> int (length (cache s))" by (simp only: of_int_le_iff)
    with assms(2) have "cache s \<noteq> []" by auto
    from evict_length_lt[OF full this assms(4)] assms(3) show ?thesis by simp
  next
    case False
    then have "(of_int (int (length (cache s))) :: rat) < of_int M" using assms(1) by simp
    then have "int (length (cache s)) < M" by (simp only: of_int_less_iff)
    with False show ?thesis by (simp add: ApiCache_evictIfNeeded_def)
  qed
  have "length (cache (ApiCache_set k d now s)) \<le> Suc (length (cache ?s1))"
    using True by (simp add: ApiCache_set_def Let_def length_update_le)
  with len show ?thesis by simp
qed

lemma set_config: "config (ApiCache_set k d now s) = config s"
  by (simp add: ApiCache_set_def Let_def evict_config)

lemma set_keys:
  "fst ` set (cache (ApiCache_set k d now s)) \<subseteq> insert k (fst ` set (cache s))"
  using evict_keys[of s] by (auto simp: ApiCache_set_def Let_def keys_update)

lemma get_config: "config (snd (ApiCache_get k now s)) = config s"
  by (simp add: ApiCache_get_def split: option.splits)

lemma get_length: "length (cache (snd (ApiCache_get k now s))) \<le> length (cache s)"
  by (simp add: ApiCache_get_def AList.length_delete_le split: option.splits)

lemma get_keys: "fst ` set (cache (snd (ApiCache_get k now s))) \<subseteq> fst ` set (cache s)"
  using AList.dom_delete_subset[of k "cache s"]
  by (simp add: ApiCache_get_def split: option.splits)

lemma apply_op_config: "config (apply_op c s) = config s"
  by (cases "(c, s)" rule: apply_op.cases)
     (simp_all add: get_config set_config ApiCache_delete_def ApiCache_clear_def
        ApiCache_getStats_def ApiCache_cleanup_def Let_def)

lemma apply_op_keys:
  assumes "set_key_of c \<noteq> Some []" and "[] \<notin> fst ` set (cache s)"
  shows "[] \<notin> fst ` set (cache (apply_op c s))"
proof (cases "(c, s)" rule: apply_op.cases)
  case (1 key now s')
  then show ?thesis using assms(2) get_keys[of key now s] by auto
next
  case (2 key d now s')
  then show ?thesis using assms set_keys[of key d now s] by auto
next
  case (3 key now s')
  then show ?thesis using assms(2) AList.dom_delete_subset[of key "cache s"]
    by (auto simp: ApiCache_delete_def)
next
  case (4 now s')
  then show ?thesis by (simp add: ApiCache_clear_def)
next
  case (5 now s')
  then show ?thesis using assms(2) cleanup_loop_keys[of "cache s" now "cache s"]
    by (auto simp: ApiCache_getStats_def ApiCache_cleanup_def Let_def)
qed

lemma apply_op_bounded:
  assumes "maxSize (config s) = of_int M" and "1 \<le> M" and "int (length (cache s)) \<le> M"
    and "[] \<notin> fst ` set (cache s)"
  shows "int (length (cache (apply_op c s))) \<le> M"
proof (cases "(c, s)" rule: apply_op.cases)
  case (1 key now s')
  then show ?thesis using assms(3) get_length[of key now s] by auto
next
  case (2 key d now s')
  then show ?thesis using set_bounded[OF assms] by simp
next
  case (3 key now s')
  then show ?thesis using assms(3) AList.length_delete_le[of key "cache s"]
    by (auto simp: ApiCache_delete_def)
next
  case (4 now s')
  then show ?thesis using assms(2) by (simp add: ApiCache_clear_def)
next
  case (5 now s')
  then show ?thesis using assms(3) cleanup_loop_length[of "cache s" now "cache s"]
    by (auto simp: ApiCache_getStats_def ApiCache_cleanup_def Let_def)
qed

lemma run_invariant:
  assumes "\<forall>c \<in> set ops. set_key_of c \<noteq> Some []"
    and "maxSize (config s) = of_int M" and "1 \<le> M" and "int (length (cache s)) \<le> M"
    and "[] \<notin> fst ` set (cache s)"
  shows "config (run ops s) = config s
       \<and> int (length (cache (run ops s))) \<le> M
       \<and> [] \<notin> fst ` set (cache (run ops s))"
  using assms
proof (induction ops arbitrary: s)
  case Nil
  then show ?case by simp
next
  case (Cons c ops)
  have c: "set_key_of c \<noteq> Some []" using Cons.prems(1) by simp
  have "config (run ops (apply_op c s)) = config (apply_op c s)
       \<and> int (length (cache (run ops (apply_op c s)))) \<le> M
       \<and> [] \<notin> fst ` set (cache (run ops (apply_op c s)))"
  proof (rule Cons.IH)
    show "\<forall>c \<in> set ops. set_key_of c \<noteq> Some []" using Cons.prems(1) by simp
    show "maxSize (config (apply_op c s)) = of_int M"
      using Cons.prems(2) by (simp add: apply_op_config)
    show "1 \<le> M" by (rule Cons.prems(3))
    show "int (length (cache (apply_op c s))) \<le> M"
      using apply_op_bounded[OF Cons.prems(2,3,4,5)] .
    show "[] \<notin> fst ` set (cache (apply_op c s))"
      using apply_op_keys[OF c Cons.prems(5)] .
  qed
  then show ?case by (simp add: apply_op_config)
qed

lemma run_append: "run (xs @ ys) s = run ys (run xs s)"
  by (induction xs arbitrary: s) simp_all

lemma constructor_maxSize_whole:
  assumes "case maxSize_opt cfg of None \<Rightarrow> True | Some m \<Rightarrow> 0 \<le> m \<and> m \<in> \<int>"
  shows "\<exists>M. maxSize (config (ApiCache_constructor cfg)) = of_int M \<and> 1 \<le> M"
proof (cases "maxSize_opt cfg")
  case None
  then have "maxSize (config (ApiCache_constructor cfg)) = of_int 100"
    by (simp add: ApiCache_constructor_def or_default_def)
  then show ?thesis by (intro exI[of _ 100]) simp
next
  case (Some m)
  with assms obtain n :: int where n: "m = of_int n" and "0 \<le> m" by (auto elim: Ints_cases)
  then have n0: "0 \<le> n" by simp
  show ?thesis
  proof (cases "n = 0")
    case True
    with Some n have "maxSize (config (ApiCache_constructor cfg)) = of_int 100"
      by (simp add: ApiCache_constructor_def or_default_def)
    then show ?thesis by (intro exI[of _ 100]) simp
  next
    case False
    with Some n have "maxSize (config (ApiCache_constructor cfg)) = of_int n"
      by (simp add: ApiCache_constructor_def or_default_def)
    with False n0 show ?thesis by (intro exI[of _ n]) simp
  qed
qed

text \<open>
  What \<open>set\<close> does to a full store of distinct keys when the key is new: the scan
  finds the oldest entry, and that entry is removed exactly when its key is not the
  empty string; the new entry goes to the end.
\<close>

lemma scan_oldest_Some:
  "scan_oldest es k0 (Some t0) =
     (case oldest_entry es of
        None \<Rightarrow> k0
      | Some kv \<Rightarrow> if timestamp (snd kv) < t0 then fst kv else k0)"
  by (induction es arbitrary: k0 t0) (auto split: option.splits)

lemma scan_oldest_is_oldest:
  "scan_oldest es k0 None = (case oldest_entry es of None \<Rightarrow> k0 | Some kv \<Rightarrow> fst kv)"
  by (cases es) (auto simp: scan_oldest_Some split: option.splits)

lemma oldest_entry_mem: "oldest_entry es = Some kv \<Longrightarrow> kv \<in> set es"
  by (induction es arbitrary: kv) (auto split: option.splits if_splits)

lemma oldest_entry_None: "oldest_entry es = None \<longleftrightarrow> es = []"
  by (cases es) (auto split: option.splits)

lemma oldest_entry_least:
  "oldest_entry es = Some kv \<Longrightarrow> kv' \<in> set es \<Longrightarrow> timestamp (snd kv) \<le> timestamp (snd kv')"
proof (induction es arbitrary: kv)
  case Nil
  then show ?case by simp
next
  case (Cons a es)
  show ?case
  proof (cases "oldest_entry es")
    case None
    then have "es = []" by (simp add: oldest_entry_None)
    with Cons.prems None show ?thesis by simp
  next
    case (Some b)
    note IH = Cons.IH[OF Some]
    show ?thesis
    proof (cases "timestamp (snd a) \<le> timestamp (snd b)")
      case True
      with Some Cons.prems(1) have kv: "kv = a" by simp
      from Cons.prems(2) have "kv' = a \<or> kv' \<in> set es" by simp
      then show ?thesis
      proof
        assume "kv' = a"
        with kv show ?thesis by simp
      next
        assume "kv' \<in> set es"
        from IH[OF this] True kv show ?thesis by simp
      qed
    next
      case False
      with Some Cons.prems(1) have kv: "kv = b" by simp
      from Cons.prems(2) have "kv' = a \<or> kv' \<in> set es" by simp
      then show ?thesis
      proof
        assume "kv' = a"
        with kv False show ?thesis by simp
      next
        assume "kv' \<in> set es"
        from IH[OF this] kv show ?thesis by simp
      qed
    qed
  qed
qed

lemma update_new_key: "k \<notin> fst ` set al \<Longrightarrow> AList.update k v al = al @ [(k, v)]"
  by (induction al) auto

lemma length_delete_distinct:
  "distinct (map fst al) \<Longrightarrow> k \<in> fst ` set al \<Longrightarrow> Suc (length (AList.delete k al)) = length al"
proof (induction al)
  case Nil
  then show ?case by simp
next
  case (Cons p al)
  show ?case
  proof (cases "fst p = k")
    case True
    with Cons.prems(1) have "k \<notin> fst ` set al" by auto
    then show ?thesis using True by (cases p) (simp add: AList.delete_id)
  next
    case False
    with Cons show ?thesis by (cases p) auto
  qed
qed

lemma set_on_full_store:
  assumes "enabled (config s)" and "maxSize (config s) \<le> of_nat (length (cache s))"
    and "distinct (map fst (cache s))" and "key \<notin> fst ` set (cache s)"
    and "oldest_entry (cache s) = Some (k0, e0)"
  shows "cache (ApiCache_set key d now s) =
           (if k0 \<noteq> [] then AList.delete k0 (cache s) else cache s)
             @ [(key, \<lparr>data = d, timestamp = now,
                        expireAt = js_add (of_int now) (ttl (config s))\<rparr>)]"
    and "length (cache (ApiCache_set key d now s)) =
           (if k0 \<noteq> [] then length (cache s) else Suc (length (cache s)))"
proof -
  let ?entry = "\<lparr>data = d, timestamp = now, expireAt = js_add (of_int now) (ttl (config s))\<rparr>"
  let ?kept = "if k0 \<noteq> [] then AList.delete k0 (cache s) else cache s"
  have scan: "scan_oldest (cache s) [] None = k0"
    using assms(5) by (simp add: scan_oldest_is_oldest)
  have ev: "ApiCache_evictIfNeeded s = s\<lparr>cache := ?kept\<rparr>"
    using assms(2) scan by (simp add: ApiCache_evictIfNeeded_def Let_def)
  have "fst ` set ?kept \<subseteq> fst ` set (cache s)"
    using AList.dom_delete_subset[of k0 "cache s"] by simp
  with assms(4) have new: "key \<notin> fst ` set ?kept" by blast
  have "cache (ApiCache_set key d now s) = AList.update key ?entry ?kept"
    using assms(1) ev by (simp add: ApiCache_set_def Let_def)
  then show c: "cache (ApiCache_set key d now s) = ?kept @ [(key, ?entry)]"
    using update_new_key[OF new] by simp
  have "k0 \<in> fst ` set (cache s)"
    using oldest_entry_mem[OF assms(5)] by force
  from length_delete_distinct[OF assms(3) this] c
  show "length (cache (ApiCache_set key d now s)) =
           (if k0 \<noteq> [] then length (cache s) else Suc (length (cache s)))"
    by simp
qed

text \<open>
  C1. With capacity \<open>maxSize = M\<close> and \<open>M\<close> entries of distinct keys, a \<open>set\<close> of one
  more key should keep exactly \<open>M\<close> entries and evict the entry of the smallest creation
  timestamp. The code deletes the oldest entry only when its key is truthy: with
  \<open>maxSize = 1\<close>, \<open>set('', 1)\<close> at time 0 and \<open>set('a', 2)\<close> at time 1 leave both
  entries in the store, the empty key first; nothing is evicted and the store holds
  \<open>M + 1\<close> entries.
\<close>

theorem empty_key_not_evicted:
  "map fst (cache (run [(Set [] (Val (1::nat)), 0), (Set ''a'' (Val 2), 1)]
        (ApiCache_constructor \<lparr>ttl_opt = None, maxSize_opt = Some 1, enabled_opt = None\<rparr>)))
     = [[], ''a'']"
  by (simp add: ApiCache_constructor_def or_default_def ApiCache_set_def 
      ApiCache_evictIfNeeded_def Let_def)

text \<open>
  C2, as the code has it. With caching enabled, \<open>set(k, v)\<close> at time \<open>t\<close> stores the
  expiry \<open>expireAt\<close>, the sum of \<open>t\<close> and \<open>ttl\<close> as doubles: a \<open>get(k)\<close> at time \<open>t'\<close>
  returns \<open>v\<close> when \<open>t' < expireAt\<close> and a miss (\<open>null\<close>) when \<open>t' \<ge> expireAt\<close>,
  although the entry was never deleted. When \<open>ttl\<close> is a whole number of milliseconds,
  at least 1, and \<open>t + ttl\<close> is at most \<open>2 ^ 53\<close> in magnitude, the sum is exact: the
  \<open>get\<close> returns \<open>v\<close> when \<open>t' < t + ttl\<close> and a miss when \<open>t' \<ge> t + ttl\<close>, and a
  \<open>get(k)\<close> at the time of the \<open>set\<close> returns \<open>v\<close>. This holds for every store,
  whatever it held before and whatever the \<open>set\<close> evicted. A positive \<open>ttl\<close> below half
  the spacing of the doubles at \<open>t\<close> gives \<open>expireAt = t\<close>: the entry is expired from
  the start.
\<close>

theorem set_then_get:
  assumes "enabled (config s)"
  shows "(of_int t' < js_add (of_int t) (ttl (config s))
            \<longrightarrow> fst (ApiCache_get k t' (ApiCache_set k v t s)) = v)
       \<and> (js_add (of_int t) (ttl (config s)) \<le> of_int t'
            \<longrightarrow> fst (ApiCache_get k t' (ApiCache_set k v t s)) = Null)
       \<and> (ttl (config s) = of_int n \<and> 1 \<le> n \<and> \<bar>t + n\<bar> \<le> 2 ^ 53 \<longrightarrow>
            (t' < t + n \<longrightarrow> fst (ApiCache_get k t' (ApiCache_set k v t s)) = v)
          \<and> (t + n \<le> t' \<longrightarrow> fst (ApiCache_get k t' (ApiCache_set k v t s)) = Null)
          \<and> fst (ApiCache_get k t (ApiCache_set k v t s)) = v)"
proof -
  have stored: "map_of (cache (ApiCache_set k v t s)) k
      = Some \<lparr>data = v, timestamp = t, expireAt = js_add (of_int t) (ttl (config s))\<rparr>"
    using assms by (simp add: ApiCache_set_def Let_def AList.update_conv')
  have en: "enabled (config (ApiCache_set k v t s))"
    using assms by (simp add: set_config)
  have hit: "of_int u < js_add (of_int t) (ttl (config s))
               \<Longrightarrow> fst (ApiCache_get k u (ApiCache_set k v t s)) = v" for u
    using stored en by (simp add: ApiCache_get_def)
  have miss: "js_add (of_int t) (ttl (config s)) \<le> of_int u
               \<Longrightarrow> fst (ApiCache_get k u (ApiCache_set k v t s)) = Null" for u
    using stored en by (simp add: ApiCache_get_def)
  have whole: "(u < t + n \<longrightarrow> fst (ApiCache_get k u (ApiCache_set k v t s)) = v)
          \<and> (t + n \<le> u \<longrightarrow> fst (ApiCache_get k u (ApiCache_set k v t s)) = Null)"
    if "ttl (config s) = of_int n" and "\<bar>t + n\<bar> \<le> 2 ^ 53" for u
  proof -
    have "js_add (of_int t) (ttl (config s)) = of_int (t + n)"
      using that js_add_int[of t n] by simp
    then show ?thesis using hit[of u] miss[of u] by simp
  qed
  show ?thesis using hit[of t'] miss[of t'] whole[of t'] whole[of t] by simp
qed

theorem set_then_get_witness:
  "fst (ApiCache_get ''k'' 999 (ApiCache_set ''k'' (Val (42::int)) 0
          (ApiCache_constructor \<lparr>ttl_opt = Some 1000, maxSize_opt = None, enabled_opt = None\<rparr>)))
     = Val 42
   \<and> fst (ApiCache_get ''k'' 1000 (ApiCache_set ''k'' (Val (42::int)) 0
          (ApiCache_constructor \<lparr>ttl_opt = Some 1000, maxSize_opt = None, enabled_opt = None\<rparr>)))
     = Null
   \<and> fst (ApiCache_get ''k'' 0 (ApiCache_set ''k'' (Val (42::int)) 0
          (ApiCache_constructor \<lparr>ttl_opt = Some 1000, maxSize_opt = None, enabled_opt = None\<rparr>)))
     = Val 42"
  using set_then_get [of "ApiCache_constructor \<lparr>ttl_opt = Some 1000, maxSize_opt = None, enabled_opt = None\<rparr>"
          999 0 "''k''" "Val (42::int)" 1000]
        set_then_get [of "ApiCache_constructor \<lparr>ttl_opt = Some 1000, maxSize_opt = None, enabled_opt = None\<rparr>"
          1000 0 "''k''" "Val (42::int)" 1000]
  by (simp add: ApiCache_constructor_def or_default_def)

theorem tiny_ttl_expires_at_once:
  "enabled (config (ApiCache_constructor
       \<lparr>ttl_opt = Some (1 / 16384), maxSize_opt = None, enabled_opt = None\<rparr> :: int ApiCache))
   \<and> 0 < ttl (config (ApiCache_constructor
       \<lparr>ttl_opt = Some (1 / 16384), maxSize_opt = None, enabled_opt = None\<rparr> :: int ApiCache))
   \<and> fst (ApiCache_get ''k'' 1700000000000 (ApiCache_set ''k'' (Val (42::int)) 1700000000000
          (ApiCache_constructor \<lparr>ttl_opt = Some (1 / 16384), maxSize_opt = None, enabled_opt = None\<rparr>)))
     = Null"
proof -
  have "js_add 1700000000000 (1 / 16384) = 1700000000000" by code_simp
  then show ?thesis
    by (simp add: ApiCache_constructor_def or_default_def ApiCache_get_def ApiCache_set_def
        ApiCache_evictIfNeeded_def Let_def)
qed

text \<open>
  C3, as the code has it. The constructor keeps a negative \<open>maxSize\<close>, and then a store
  of one entry already exceeds it; it keeps a \<open>maxSize\<close> that is not a whole number
  too, and with 2.5 nothing is evicted before the store holds 3 entries. For a store
  constructed from a \<open>maxSize\<close> that is absent or a whole number that is not negative,
  and calls of \<open>get\<close>, \<open>set\<close>, \<open>delete\<close>, \<open>clear\<close> and \<open>getStats\<close> in any order and at
  any clock readings in which no \<open>set\<close> uses the empty string as its key, the number of
  entries right after any \<open>set\<close> is at most the configured \<open>maxSize\<close>.
\<close>

theorem size_bounded_after_set:
  assumes "\<forall>c \<in> set ops. set_key_of c \<noteq> Some []" and "key \<noteq> []"
    and "case maxSize_opt cfg of None \<Rightarrow> True | Some m \<Rightarrow> 0 \<le> m \<and> m \<in> \<int>"
  shows "of_nat (length (cache (run (ops @ [(Set key d, now)]) (ApiCache_constructor cfg :: 'v ApiCache))))
           \<le> maxSize (config (ApiCache_constructor cfg :: 'v ApiCache))"
proof -
  let ?s = "ApiCache_constructor cfg :: 'v ApiCache"
  from constructor_maxSize_whole[OF assms(3)]
  obtain M where M: "maxSize (config ?s) = of_int M" "1 \<le> M" by blast
  have "\<forall>c \<in> set (ops @ [(Set key d, now)]). set_key_of c \<noteq> Some []"
    using assms(1,2) by auto
  moreover have "int (length (cache ?s)) \<le> M" "[] \<notin> fst ` set (cache ?s)"
    using M(2) by (simp_all add: ApiCache_constructor_def)
  ultimately have "int (length (cache (run (ops @ [(Set key d, now)]) ?s))) \<le> M"
    using run_invariant[of "ops @ [(Set key d, now)]" ?s M] M by blast
  then have "(of_int (int (length (cache (run (ops @ [(Set key d, now)]) ?s)))) :: rat) \<le> of_int M"
    by (simp only: of_int_le_iff)
  then show ?thesis using M(1) by simp
qed

theorem size_bounded_after_set_witness:
  "of_nat (length (cache (run ([(Set ''a'' (Val (1::nat)), 0), (Get ''a'', 1), (Set ''b'' (Val 2), 2),
        (GetStats, 3), (Delete ''zz'', 4)] @ [(Set ''c'' (Val 3), 5)])
        (ApiCache_constructor \<lparr>ttl_opt = None, maxSize_opt = Some 2, enabled_opt = None\<rparr>))))
     \<le> maxSize (config (ApiCache_constructor \<lparr>ttl_opt = None, maxSize_opt = Some 2, enabled_opt = None\<rparr> :: nat ApiCache))
   \<and> map fst (cache (run ([(Set ''a'' (Val (1::nat)), 0), (Get ''a'', 1), (Set ''b'' (Val 2), 2),
        (GetStats, 3), (Delete ''zz'', 4)] @ [(Set ''c'' (Val 3), 5)])
        (ApiCache_constructor \<lparr>ttl_opt = None, maxSize_opt = Some 2, enabled_opt = None\<rparr>))) = [''b'', ''c'']"
  using size_bounded_after_set[of "[(Set ''a'' (Val (1::nat)), 0), (Get ''a'', 1), (Set ''b'' (Val 2), 2),
        (GetStats, 3), (Delete ''zz'', 4)]" "''c''" "\<lparr>ttl_opt = None, maxSize_opt = Some 2, enabled_opt = None\<rparr>" "Val 3" 5]
  by (simp add: ApiCache_constructor_def or_default_def ApiCache_set_def ApiCache_get_def
      ApiCache_evictIfNeeded_def ApiCache_getStats_def ApiCache_cleanup_def ApiCache_delete_def
      Let_def js_add_exact)

theorem size_bound_counterexample:
  "\<not> of_nat (length (cache (run [(Set ''a'' (Val (1::nat)), 0)]
        (ApiCache_constructor \<lparr>ttl_opt = None, maxSize_opt = Some (- 1), enabled_opt = None\<rparr>))))
     \<le> maxSize (config (ApiCache_constructor \<lparr>ttl_opt = None, maxSize_opt = Some (- 1), enabled_opt = None\<rparr> :: nat ApiCache))
   \<and> \<not> of_nat (length (cache (run [(Set ''a'' (Val (1::nat)), 0), (Set ''b'' (Val 2), 1),
          (Set ''c'' (Val 3), 2)]
        (ApiCache_constructor \<lparr>ttl_opt = None, maxSize_opt = Some (5 / 2), enabled_opt = None\<rparr>))))
     \<le> maxSize (config (ApiCache_constructor \<lparr>ttl_opt = None, maxSize_opt = Some (5 / 2), enabled_opt = None\<rparr> :: nat ApiCache))"
  by (simp add: ApiCache_constructor_def or_default_def ApiCache_set_def 
      ApiCache_evictIfNeeded_def Let_def)


section \<open>Properties of the caching wrapper\<close>

lemmas eval_key = ApiCache_generateKey_def JSON_stringify_def show_int_def show_nat.simps

lemmas eval_cache = ApiCache_constructor_def or_default_def ApiCache_get_def ApiCache_set_def
  ApiCache_evictIfNeeded_def Let_def js_add_exact

lemma get_miss_store:
  "snd (ApiCache_get key t s) =
     (if enabled (config s) \<and> (\<exists>entry. map_of (cache s) key = Some entry \<and> expireAt entry \<le> of_int t)
      then s\<lparr>cache := AList.delete key (cache s)\<rparr> else s)"
  by (auto simp: ApiCache_get_def split: option.splits)

lemma set_stores:
  "enabled (config s) \<Longrightarrow>
     map_of (cache (ApiCache_set key d t s)) key
       = Some \<lparr>data = d, timestamp = t, expireAt = js_add (of_int t) (ttl (config s))\<rparr>"
  by (simp add: ApiCache_set_def Let_def AList.update_conv')

lemma set_disabled: "\<not> enabled (config s) \<Longrightarrow> ApiCache_set key d t s = s"
  by (simp add: ApiCache_set_def)

lemma withCache_miss_result:
  assumes "now w = (t1, w1)"
    and "fst (ApiCache_get (ApiCache_generateKey stringify method args) t1 s) = Null"
    and "fn args w1 = (r, w2)"
    and "now w2 = (t2, w3)"
  shows "ApiCache_withCache now stringify method fn args w s =
           (case r of
              Inl e \<Rightarrow>
                (Inl e, w2, snd (ApiCache_get (ApiCache_generateKey stringify method args) t1 s))
            | Inr result \<Rightarrow>
                (Inr result, w3,
                 ApiCache_set (ApiCache_generateKey stringify method args) result t2
                   (snd (ApiCache_get (ApiCache_generateKey stringify method args) t1 s))))"
  using assms
  by (cases "ApiCache_get (ApiCache_generateKey stringify method args) t1 s")
     (simp add: ApiCache_withCache_def Let_def split: sum.splits)

lemma get_null_entry:
  "(case map_of (cache s) key of None \<Rightarrow> True | Some entry \<Rightarrow> data entry = Null)
     \<Longrightarrow> fst (ApiCache_get key t s) = Null"
  by (simp add: ApiCache_get_def split: option.splits)

lemma withCache_fetches_on_null:
  assumes "fst (ApiCache_get (ApiCache_generateKey stringify method args) (fst (now w)) s) = Null"
  shows "fst (ApiCache_withCache now stringify method fn args w s) = fst (fn args (snd (now w)))"
    and "fst (snd (ApiCache_withCache now stringify method fn args w s))
           = (case fst (fn args (snd (now w))) of
                Inl e \<Rightarrow> snd (fn args (snd (now w)))
              | Inr v \<Rightarrow> snd (now (snd (fn args (snd (now w))))))"
  using assms
  by (auto simp: ApiCache_withCache_def Let_def split: prod.splits jsval.splits sum.splits)

text \<open>
  C4, as the code has it. A wrapped call that observes a miss invokes the fetch exactly
  once: the world it leaves is the one left by a single call of \<open>fn\<close> (followed by one
  clock reading when the fetch succeeds). If the fetch succeeds the result is returned
  and, when caching is enabled, stored under the computed key; when caching is disabled
  nothing is stored. If the fetch fails the failure reaches the caller unchanged and
  nothing is written: the store is the one left by the lookup that missed, which
  differs from the store before the call only when that lookup found an expired entry
  under the key and removed it.
\<close>

theorem withCache_on_miss:
  assumes clock1: "now w = (t1, w1)"
    and miss: "fst (ApiCache_get (ApiCache_generateKey stringify method args) t1 s) = Null"
    and fetch: "fn args w1 = (r, w2)"
    and clock2: "now w2 = (t2, w3)"
  shows "let key = ApiCache_generateKey stringify method args;
             s1 = snd (ApiCache_get key t1 s)
         in s1 = (if enabled (config s)
                     \<and> (\<exists>entry. map_of (cache s) key = Some entry \<and> expireAt entry \<le> of_int t1)
                  then s\<lparr>cache := AList.delete key (cache s)\<rparr> else s)
          \<and> (case r of
                Inl e \<Rightarrow> ApiCache_withCache now stringify method fn args w s = (Inl e, w2, s1)
              | Inr result \<Rightarrow>
                  ApiCache_withCache now stringify method fn args w s
                    = (Inr result, w3, ApiCache_set key result t2 s1)
                  \<and> (if enabled (config s)
                     then map_of (cache (ApiCache_set key result t2 s1)) key
                            = Some \<lparr>data = result, timestamp = t2, expireAt = js_add (of_int t2) (ttl (config s))\<rparr>
                     else ApiCache_set key result t2 s1 = s))"
proof -
  let ?key = "ApiCache_generateKey stringify method args"
  let ?s1 = "snd (ApiCache_get ?key t1 s)"
  have cfg: "config ?s1 = config s" by (rule get_config)
  have dis: "\<not> enabled (config s) \<Longrightarrow> ?s1 = s" by (simp add: get_miss_store)
  have W: "ApiCache_withCache now stringify method fn args w s =
             (case r of Inl e \<Rightarrow> (Inl e, w2, ?s1)
              | Inr result \<Rightarrow> (Inr result, w3, ApiCache_set ?key result t2 ?s1))"
    using clock1 miss fetch clock2 by (rule withCache_miss_result)
  have stored: "enabled (config s) \<Longrightarrow>
        map_of (cache (ApiCache_set ?key result t2 ?s1)) ?key
          = Some \<lparr>data = result, timestamp = t2, expireAt = js_add (of_int t2) (ttl (config s))\<rparr>" for result
    using set_stores[of ?s1 ?key result t2] cfg by simp
  have passed: "\<not> enabled (config s) \<Longrightarrow> ApiCache_set ?key result t2 ?s1 = s" for result
    using dis set_disabled[of ?s1 ?key result t2] cfg by simp
  have first: "?s1 = (if enabled (config s)
                     \<and> (\<exists>entry. map_of (cache s) ?key = Some entry \<and> expireAt entry \<le> of_int t1)
                  then s\<lparr>cache := AList.delete ?key (cache s)\<rparr> else s)"
    by (rule get_miss_store)
  show ?thesis
  proof (cases r)
    case (Inl e)
    with W first show ?thesis unfolding Let_def by simp
  next
    case (Inr result)
    with W first stored[of result] passed[of result] show ?thesis unfolding Let_def by simp
  qed
qed

theorem withCache_on_miss_witness:
  "ApiCache_withCache demo_now JSON_stringify ''op'' demo_fn [5] 0
       (ApiCache_constructor \<lparr>ttl_opt = None, maxSize_opt = None, enabled_opt = None\<rparr>)
     = (Inr (Val 5), 102,
        \<lparr>cache = [(''op:[5]'', \<lparr>data = Val 5, timestamp = 101, expireAt = 300101\<rparr>)],
         config = \<lparr>ttl = 300000, maxSize = 100, enabled = True\<rparr>\<rparr>)
   \<and> ApiCache_withCache demo_now JSON_stringify ''op'' demo_fn [0] 0
       (ApiCache_constructor \<lparr>ttl_opt = None, maxSize_opt = None, enabled_opt = None\<rparr>)
     = (Inl (Error ''boom''), 101,
        \<lparr>cache = [], config = \<lparr>ttl = 300000, maxSize = 100, enabled = True\<rparr>\<rparr>)"
  using withCache_on_miss [of demo_now 0 0 1 JSON_stringify "''op''" "[5]"
          "ApiCache_constructor \<lparr>ttl_opt = None, maxSize_opt = None, enabled_opt = None\<rparr>"
          demo_fn "Inr (Val 5)" 101 101 102]
        withCache_on_miss [of demo_now 0 0 1 JSON_stringify "''op''" "[0]"
          "ApiCache_constructor \<lparr>ttl_opt = None, maxSize_opt = None, enabled_opt = None\<rparr>"
          demo_fn "Inl (Error ''boom'')" 101 101 102]
  by (simp add: demo_now_def demo_fn_def eval_key eval_cache)

theorem withCache_counterexample:
  "fst (ApiCache_withCache demo_now JSON_stringify ''op'' demo_fn [5] 0
          \<lparr>cache = [], config = \<lparr>ttl = 1000, maxSize = 100, enabled = False\<rparr>\<rparr>)
     = Inr (Val 5)
   \<and> map_of (cache (snd (snd (ApiCache_withCache demo_now JSON_stringify ''op'' demo_fn [5] 0
          \<lparr>cache = [], config = \<lparr>ttl = 1000, maxSize = 100, enabled = False\<rparr>\<rparr>)))) ''op:[5]''
     = None
   \<and> fst (ApiCache_withCache demo_now JSON_stringify ''op'' demo_fn [0] 20
          \<lparr>cache = [(''op:[0]'', \<lparr>data = Val 1, timestamp = 0, expireAt = 10\<rparr>)],
           config = \<lparr>ttl = 10, maxSize = 100, enabled = True\<rparr>\<rparr>)
     = Inl (Error ''boom'')
   \<and> cache (snd (snd (ApiCache_withCache demo_now JSON_stringify ''op'' demo_fn [0] 20
          \<lparr>cache = [(''op:[0]'', \<lparr>data = Val 1, timestamp = 0, expireAt = 10\<rparr>)],
           config = \<lparr>ttl = 10, maxSize = 100, enabled = True\<rparr>\<rparr>)))
     \<noteq> [(''op:[0]'', \<lparr>data = Val 1, timestamp = 0, expireAt = 10\<rparr>)]"
  by (simp add: ApiCache_withCache_def demo_now_def demo_fn_def eval_key eval_cache)

text \<open>
  C10. When the fetch resolves with \<open>null\<close>, the wrapped call returns \<open>null\<close> and
  (caching enabled) an entry holding \<open>null\<close> is stored; \<open>get\<close> on that key gives
  \<open>null\<close> at every time, as it does for a key without entry, so every later call with
  the same operation and arguments runs the fetch again: it returns what the fetch
  returns and leaves the world the fetch leaves.
\<close>

theorem null_result_never_hit:
  assumes clock1: "now w = (t1, w1)"
    and miss: "fst (ApiCache_get (ApiCache_generateKey stringify method args) t1 s) = Null"
    and fetch: "fn args w1 = (Inr Null, w2)"
    and clock2: "now w2 = (t2, w3)"
  shows "let key = ApiCache_generateKey stringify method args;
             s' = snd (snd (ApiCache_withCache now stringify method fn args w s))
         in fst (ApiCache_withCache now stringify method fn args w s) = Inr Null
          \<and> (if enabled (config s)
              then map_of (cache s') key
                     = Some \<lparr>data = Null, timestamp = t2, expireAt = js_add (of_int t2) (ttl (config s))\<rparr>
              else s' = s)
          \<and> (\<forall>t. fst (ApiCache_get key t s') = Null)
          \<and> (\<forall>u. fst (ApiCache_withCache now stringify method fn args u s')
                    = fst (fn args (snd (now u)))
                 \<and> fst (snd (ApiCache_withCache now stringify method fn args u s'))
                    = (case fst (fn args (snd (now u))) of
                         Inl e \<Rightarrow> snd (fn args (snd (now u)))
                       | Inr v \<Rightarrow> snd (now (snd (fn args (snd (now u)))))))"
proof -
  let ?key = "ApiCache_generateKey stringify method args"
  let ?s1 = "snd (ApiCache_get ?key t1 s)"
  let ?s' = "snd (snd (ApiCache_withCache now stringify method fn args w s))"
  have "ApiCache_withCache now stringify method fn args w s
          = (case Inr Null of
               Inl e \<Rightarrow> (Inl e, w2, ?s1)
             | Inr result \<Rightarrow> (Inr result, w3, ApiCache_set ?key result t2 ?s1))"
    using clock1 miss fetch clock2 by (rule withCache_miss_result)
  then have W: "ApiCache_withCache now stringify method fn args w s
             = (Inr Null, w3, ApiCache_set ?key Null t2 ?s1)"
    by simp
  have cfg: "config ?s1 = config s" by (rule get_config)
  have st: "if enabled (config s)
             then map_of (cache (ApiCache_set ?key Null t2 ?s1)) ?key
                    = Some \<lparr>data = Null, timestamp = t2, expireAt = js_add (of_int t2) (ttl (config s))\<rparr>
             else ApiCache_set ?key Null t2 ?s1 = s"
  proof (cases "enabled (config s)")
    case True
    then show ?thesis using set_stores[of ?s1 ?key Null t2] cfg by simp
  next
    case False
    then have "?s1 = s" by (simp add: get_miss_store)
    with False show ?thesis using set_disabled[of s ?key Null t2] by simp
  qed
  have s': "?s' = ApiCache_set ?key Null t2 ?s1" using W by simp
  have stored: "if enabled (config s)
       then map_of (cache ?s') ?key
              = Some \<lparr>data = Null, timestamp = t2, expireAt = js_add (of_int t2) (ttl (config s))\<rparr>
       else ?s' = s"
    using st s' by simp
  have null: "fst (ApiCache_get ?key t ?s') = Null" for t
  proof (cases "enabled (config s)")
    case True
    with stored show ?thesis by (intro get_null_entry) simp
  next
    case False
    with stored show ?thesis by (simp add: ApiCache_get_def)
  qed
  have again: "fst (ApiCache_withCache now stringify method fn args u ?s')
                 = fst (fn args (snd (now u)))
             \<and> fst (snd (ApiCache_withCache now stringify method fn args u ?s'))
                 = (case fst (fn args (snd (now u))) of
                      Inl e \<Rightarrow> snd (fn args (snd (now u)))
                    | Inr v \<Rightarrow> snd (now (snd (fn args (snd (now u))))))" for u
    using null[of "fst (now u)"]
      withCache_fetches_on_null[of stringify "method" args now u "?s'" fn]
    by simp
  show ?thesis
    unfolding Let_def using W stored null again by simp
qed

theorem null_result_never_hit_witness:
  "fst (ApiCache_withCache demo_now JSON_stringify ''op'' demo_fn [1] 0
          (ApiCache_constructor \<lparr>ttl_opt = None, maxSize_opt = None, enabled_opt = None\<rparr>))
     = Inr Null
   \<and> map_of (cache (snd (snd (ApiCache_withCache demo_now JSON_stringify ''op'' demo_fn [1] 0
          (ApiCache_constructor \<lparr>ttl_opt = None, maxSize_opt = None, enabled_opt = None\<rparr>)))))
        ''op:[1]''
     = Some \<lparr>data = Null, timestamp = 101, expireAt = 300101\<rparr>
   \<and> ApiCache_withCache demo_now JSON_stringify ''op'' demo_fn [1] 102
        (snd (snd (ApiCache_withCache demo_now JSON_stringify ''op'' demo_fn [1] 0
          (ApiCache_constructor \<lparr>ttl_opt = None, maxSize_opt = None, enabled_opt = None\<rparr>))))
     = (Inr Null, 204,
        \<lparr>cache = [(''op:[1]'', \<lparr>data = Null, timestamp = 203, expireAt = 300203\<rparr>)],
         config = \<lparr>ttl = 300000, maxSize = 100, enabled = True\<rparr>\<rparr>)"
  using null_result_never_hit [of demo_now 0 0 1 JSON_stringify "''op''" "[1]"
          "ApiCache_constructor \<lparr>ttl_opt = None, maxSize_opt = None, enabled_opt = None\<rparr>"
          demo_fn 101 101 102]
  by (simp add: ApiCache_withCache_def demo_now_def demo_fn_def eval_key eval_cache)

section \<open>Properties of the single-item fetches\<close>

lemma getGroupInfo_miss:
  assumes "Date_now rt w = (t1, w1)"
    and "fst (ApiCache_get (ApiCache_generateKey JSON_stringify ''getGroupInfo'' [id']) t1 s) = Null"
  shows "getGroupInfo rt id' w s =
           getGroupInfo_end rt id' w1
             (snd (ApiCache_get (ApiCache_generateKey JSON_stringify ''getGroupInfo'' [id']) t1 s))"
  using assms
  by (cases "ApiCache_get (ApiCache_generateKey JSON_stringify ''getGroupInfo'' [id']) t1 s")
     (simp add: getGroupInfo_def getGroupInfo_begin_def Let_def)

lemmas eval_fetch = getGroupInfo_def getGroupInfo_begin_def getGroupInfo_end_def
  getInterfaceList_def checkApiResponse_def new_ApiError_def demo_runtime_def demo_store_def

text \<open>
  C7, as the code has it. On a cache miss, when the origin answers with a non-zero
  \<open>errcode\<close>, the \<open>ApiError\<close> made by \<open>checkApiResponse\<close>, carrying the origin's code
  and message, reaches the caller of \<open>getGroupInfo\<close> and of \<open>getInterfaceList\<close> as it
  is. When the request itself fails with an error that is not an \<open>ApiError\<close>, the caller
  gets a new \<open>Error\<close> with the fixed message of the function instead; the original
  message is only printed. In both cases nothing is written to the cache and no value is
  returned in place of the error.
\<close>

theorem single_fetch_errors:
  assumes clock: "Date_now rt w = (t1, w1)"
  shows "(fst (ApiCache_get (ApiCache_generateKey JSON_stringify ''getGroupInfo'' [id']) t1 s) = Null \<longrightarrow>
           (get_interface rt id' w1 = (Inr response, w2) \<and> errcode response \<noteq> 0 \<longrightarrow>
              getGroupInfo rt id' w s =
                (Inl (ApiError (errcode response) (errmsg response)
                       (''API Error: '' @ errmsg response @ '' (errcode: ''
                          @ show_int (errcode response) @ '')'')),
                 w2,
                 snd (ApiCache_get (ApiCache_generateKey JSON_stringify ''getGroupInfo'' [id']) t1 s)))
         \<and> (get_interface rt id' w1 = (Inl (Error msg), w2) \<longrightarrow>
              getGroupInfo rt id' w s =
                (Inl (Error detail_unknown_error), w2,
                 snd (ApiCache_get (ApiCache_generateKey JSON_stringify ''getGroupInfo'' [id']) t1 s))))
       \<and> (fst (ApiCache_get (ApiCache_generateKey JSON_stringify ''getInterfaceList'' [projectId]) t1 s) = Null \<longrightarrow>
           (get_list_menu rt projectId w1 = (Inr listing, w2) \<and> errcode listing \<noteq> 0 \<longrightarrow>
              getInterfaceList rt projectId w s =
                (Inl (ApiError (errcode listing) (errmsg listing)
                       (''API Error: '' @ errmsg listing @ '' (errcode: ''
                          @ show_int (errcode listing) @ '')'')),
                 w2,
                 snd (ApiCache_get (ApiCache_generateKey JSON_stringify ''getInterfaceList'' [projectId]) t1 s)))
         \<and> (get_list_menu rt projectId w1 = (Inl (Error msg), w2) \<longrightarrow>
              getInterfaceList rt projectId w s =
                (Inl (Error list_unknown_error), w2,
                 snd (ApiCache_get (ApiCache_generateKey JSON_stringify ''getInterfaceList'' [projectId]) t1 s))))"
proof (intro conjI impI)
  let ?kd = "ApiCache_generateKey JSON_stringify ''getGroupInfo'' [id']"
  let ?kl = "ApiCache_generateKey JSON_stringify ''getInterfaceList'' [projectId]"
  {
    assume miss: "fst (ApiCache_get ?kd t1 s) = Null"
    note eq = getGroupInfo_miss[OF clock miss]
    {
      assume "get_interface rt id' w1 = (Inr response, w2) \<and> errcode response \<noteq> 0"
      then show "getGroupInfo rt id' w s =
                (Inl (ApiError (errcode response) (errmsg response)
                       (''API Error: '' @ errmsg response @ '' (errcode: ''
                          @ show_int (errcode response) @ '')'')),
                 w2, snd (ApiCache_get ?kd t1 s))"
        using eq by (simp add: getGroupInfo_end_def checkApiResponse_def new_ApiError_def)
    }
    {
      assume "get_interface rt id' w1 = (Inl (Error msg), w2)"
      then show "getGroupInfo rt id' w s =
                (Inl (Error detail_unknown_error), w2, snd (ApiCache_get ?kd t1 s))"
        using eq by (simp add: getGroupInfo_end_def)
    }
  }
  {
    assume miss: "fst (ApiCache_get ?kl t1 s) = Null"
    obtain c s1 where g: "ApiCache_get ?kl t1 s = (c, s1)" by (cases "ApiCache_get ?kl t1 s")
    with miss have c: "c = Null" by simp
    {
      assume "get_list_menu rt projectId w1 = (Inr listing, w2) \<and> errcode listing \<noteq> 0"
      then show "getInterfaceList rt projectId w s =
                (Inl (ApiError (errcode listing) (errmsg listing)
                       (''API Error: '' @ errmsg listing @ '' (errcode: ''
                          @ show_int (errcode listing) @ '')'')),
                 w2, snd (ApiCache_get ?kl t1 s))"
        using clock g c
        by (simp add: getInterfaceList_def Let_def checkApiResponse_def new_ApiError_def)
    }
    {
      assume "get_list_menu rt projectId w1 = (Inl (Error msg), w2)"
      then show "getInterfaceList rt projectId w s =
                (Inl (Error list_unknown_error), w2, snd (ApiCache_get ?kl t1 s))"
        using clock g c by (simp add: getInterfaceList_def Let_def)
    }
  }
qed

theorem single_fetch_errors_witness:
  "getGroupInfo demo_runtime 7 0 demo_store
     = (Inl (ApiError 404 ''not found'' ''API Error: not found (errcode: 404)''), 2, demo_store)
   \<and> getGroupInfo demo_runtime 8 0 demo_store
     = (Inl (Error detail_unknown_error), 2, demo_store)
   \<and> getInterfaceList demo_runtime 2 0 demo_store
     = (Inl (ApiError 40011 ''no permission'' ''API Error: no permission (errcode: 40011)''), 2,
        demo_store)
   \<and> getInterfaceList demo_runtime 3 0 demo_store
     = (Inl (Error list_unknown_error), 2, demo_store)"
  using single_fetch_errors [of demo_runtime 0 0 1 7 demo_store
          "\<lparr>errcode = 404, errmsg = ''not found'', resp_data = 0\<rparr>" 2 "''Network Error''" 2
          "\<lparr>errcode = 40011, errmsg = ''no permission'', resp_data = []\<rparr>"]
        single_fetch_errors [of demo_runtime 0 0 1 8 demo_store
          "\<lparr>errcode = 404, errmsg = ''not found'', resp_data = 0\<rparr>" 2 "''Network Error''" 3
          "\<lparr>errcode = 40011, errmsg = ''no permission'', resp_data = []\<rparr>"]
  by (simp add: eval_fetch eval_key eval_cache)

theorem transport_error_replaced:
  "get_interface demo_runtime 8 1 = (Inl (Error ''Network Error''), 2)
   \<and> fst (getGroupInfo demo_runtime 8 0 demo_store) = Inl (Error detail_unknown_error)
   \<and> fst (getGroupInfo demo_runtime 8 0 demo_store) \<noteq> Inl (Error ''Network Error'')"
  by (simp add: eval_fetch eval_key eval_cache detail_unknown_error_def)


section \<open>Properties of the batch operation\<close>

lemma attempts_ids: "map fst (attempts rt ids w s) = ids"
  by (induction ids arbitrary: w s) (auto split: prod.splits)

lemma outcomes_split: "length (successes a) + length (failures a) = length a"
  by (induction a rule: successes.induct) auto

lemma batch_loop_log:
  "results (fst (batch_loop rt ids b w s)) = results b @ successes (attempts rt ids w s)
   \<and> errors (fst (batch_loop rt ids b w s)) = errors b @ failures (attempts rt ids w s)
   \<and> awaited (fst (batch_loop rt ids b w s)) = awaited b @ map (\<lambda>i. [i]) ids"
proof (induction ids arbitrary: b w s)
  case Nil
  show ?case by simp
next
  case (Cons i ids)
  obtain r w1 s1 where g: "getGroupInfo rt i w s = (r, w1, s1)"
    by (cases "getGroupInfo rt i w s") auto
  show ?case
  proof (cases r)
    case (Inl e)
    with g Cons.IH[of "b\<lparr>errors := errors b @ [(i, message e)], awaited := awaited b @ [[i]]\<rparr>" w1 s1]
    show ?thesis by simp
  next
    case (Inr v)
    with g Cons.IH[of "b\<lparr>results := results b @ [v], awaited := awaited b @ [[i]]\<rparr>" w1 s1]
    show ?thesis by simp
  qed
qed

text \<open>
  C8. \<open>batchGetGroupInfo\<close> accounts for every identifier exactly once. The calls of
  \<open>getGroupInfo\<close> it makes are one per identifier of the input, in order, whatever the
  earlier calls returned; the values of the calls that succeeded are its \<open>results\<close>, and
  the identifiers of the calls that failed, each with the message of its error, are its
  \<open>errors\<close>; together they are as many as the identifiers.
\<close>

theorem batch_accounts_for_every_id:
  "map fst (attempts rt ids w s) = ids
   \<and> results (fst (batchGetGroupInfo rt ids w s)) = successes (attempts rt ids w s)
   \<and> errors (fst (batchGetGroupInfo rt ids w s)) = failures (attempts rt ids w s)
   \<and> length (results (fst (batchGetGroupInfo rt ids w s)))
       + length (errors (fst (batchGetGroupInfo rt ids w s))) = length ids"
proof -
  have "length (attempts rt ids w s) = length ids"
    using attempts_ids[of rt ids w s] by (metis length_map)
  then show ?thesis
    using batch_loop_log[of rt ids "\<lparr>results = [], errors = [], awaited = []\<rparr>" w s]
      outcomes_split[of "attempts rt ids w s"]
    by (simp add: batchGetGroupInfo_def attempts_ids)
qed

theorem batch_accounts_for_every_id_witness:
  "results (fst (batchGetGroupInfo demo_runtime [6, 7, 8, 9] 0 demo_store)) = [Detail 60, Detail 90]
   \<and> errors (fst (batchGetGroupInfo demo_runtime [6, 7, 8, 9] 0 demo_store))
     = [(7, ''API Error: not found (errcode: 404)''), (8, detail_unknown_error)]
   \<and> map fst (attempts demo_runtime [6, 7, 8, 9] 0 demo_store) = [6, 7, 8, 9]"
  using batch_accounts_for_every_id [of demo_runtime "[6, 7, 8, 9]" 0 demo_store]
  by (simp add: batchGetGroupInfo_def eval_fetch eval_key eval_cache)

section \<open>Properties of the rounds and of the preload\<close>

lemma concat_chunks: "0 < C \<Longrightarrow> concat (chunks C xs) = xs"
proof (induction C xs rule: chunks.induct)
  case (1 C xs)
  then show ?case by (subst chunks.simps) auto
qed

lemma chunks_sizes: "c \<in> set (chunks C xs) \<Longrightarrow> 0 < length c \<and> length c \<le> C"
proof (induction C xs rule: chunks.induct)
  case (1 C xs)
  show ?case
  proof (cases "C = 0 \<or> xs = []")
    case True
    with 1(2) show ?thesis by (simp add: chunks.simps)
  next
    case False
    with 1(2) have "c = take C xs \<or> c \<in> set (chunks C (drop C xs))"
      by (subst (asm) chunks.simps) auto
    then show ?thesis
    proof
      assume "c = take C xs"
      with False show ?thesis by auto
    next
      assume "c \<in> set (chunks C (drop C xs))"
      with 1(1) False show ?thesis by blast
    qed
  qed
qed

lemma length_chunks: "0 < C \<Longrightarrow> length (chunks C xs) = (length xs + C - 1) div C"
proof (induction C xs rule: chunks.induct)
  case (1 C xs)
  show ?case
  proof (cases "xs = []")
    case True
    with 1(2) show ?thesis by (simp add: chunks.simps)
  next
    case False
    with 1 have IH: "length (chunks C (drop C xs)) = (length xs - C + C - 1) div C" by simp
    have "length (chunks C xs) = Suc (length (chunks C (drop C xs)))"
      using False 1(2) by (subst chunks.simps) simp
    also have "\<dots> = Suc ((length xs - C + C - 1) div C)" using IH by simp
    also have "\<dots> = (length xs + C - 1) div C"
    proof (cases "length xs \<le> C")
      case True
      from \<open>xs \<noteq> []\<close> have "1 \<le> length xs" by (cases xs) simp_all
      with True 1(2) have "C * 1 \<le> length xs + C - 1" "length xs + C - 1 < C * Suc 1"
        by arith+
      then have "(length xs + C - 1) div C = 1"
        by (rule div_nat_eqI)
      moreover from True 1(2) have "(length xs - C + C - 1) div C = 0" by simp
      ultimately show ?thesis by simp
    next
      case False
      then have "length xs + C - 1 = (length xs - C + C - 1) + C" by simp
      then show ?thesis using 1(2) by (metis div_add_self2 less_numeral_extra(3) Suc_eq_plus1)
    qed
    finally show ?thesis .
  qed
qed

lemma dispatch_all_trace:
  "\<exists>hits. length hits = length batch
     \<and> fst (snd (dispatch_all rt batch pending evs w s)) = evs @ map2 dispatched batch hits
     \<and> fst (dispatch_all rt batch pending evs w s)
         = pending @ map fst (filter (\<lambda>(i, hit). \<not> hit) (zip batch hits))"
proof (induction batch arbitrary: pending evs w s)
  case Nil
  show ?case by simp
next
  case (Cons i batch)
  obtain c w1 s1 where g: "getGroupInfo_begin rt i w s = (c, w1, s1)"
    by (cases "getGroupInfo_begin rt i w s") auto
  show ?case
  proof (cases c)
    case Null
    from Cons.IH[of "pending @ [i]" "evs @ [Requested i]" w1 s1]
    obtain hits where h: "length hits = length batch"
      "fst (snd (dispatch_all rt batch (pending @ [i]) (evs @ [Requested i]) w1 s1))
         = (evs @ [Requested i]) @ map2 dispatched batch hits"
      "fst (dispatch_all rt batch (pending @ [i]) (evs @ [Requested i]) w1 s1)
         = (pending @ [i]) @ map fst (filter (\<lambda>(i, hit). \<not> hit) (zip batch hits))"
      by blast
    show ?thesis
      by (rule exI[of _ "False # hits"]) (use g Null h in simp)
  next
    case (Val v)
    from Cons.IH[of pending "evs @ [Hit i]" w1 s1]
    obtain hits where h: "length hits = length batch"
      "fst (snd (dispatch_all rt batch pending (evs @ [Hit i]) w1 s1))
         = (evs @ [Hit i]) @ map2 dispatched batch hits"
      "fst (dispatch_all rt batch pending (evs @ [Hit i]) w1 s1)
         = pending @ map fst (filter (\<lambda>(i, hit). \<not> hit) (zip batch hits))"
      by blast
    show ?thesis
      by (rule exI[of _ "True # hits"]) (use g Val h in simp)
  qed
qed

lemma mset_remove_nth:
  "i < length xs \<Longrightarrow> mset (take i xs @ drop (Suc i) xs) + {#xs ! i#} = mset xs"
  by (metis add.commute add_mset_add_single id_take_nth_drop mset.simps(2) mset_append union_mset_add_mset_right)

lemma settle_all_trace:
  "\<exists>arrivals. fst (snd (settle_all rt pending warnings evs w s)) = evs @ map Responded arrivals
     \<and> mset arrivals = mset pending"
proof (induction rt pending warnings evs w s rule: settle_all.induct)
  case (1 rt pending warnings evs w s)
  show ?case
  proof (cases "pending = []")
    case True
    then show ?thesis by (simp add: settle_all.simps)
  next
    case False
    obtain k w1 where n: "next_settled rt (length pending) w = (k, w1)"
      by (cases "next_settled rt (length pending) w")
    let ?i = "k mod length pending"
    let ?id = "pending ! ?i"
    let ?others = "take ?i pending @ drop (Suc ?i) pending"
    have i: "?i < length pending" using False by simp
    obtain r w2 s2 where e: "getGroupInfo_end rt ?id w1 s = (r, w2, s2)"
      by (cases "getGroupInfo_end rt ?id w1 s") auto
    have "\<exists>ws. settle_all rt pending warnings evs w s
             = settle_all rt ?others ws (evs @ [Responded ?id]) w2 s2
        \<and> (\<exists>arrivals. fst (snd (settle_all rt ?others ws (evs @ [Responded ?id]) w2 s2))
              = (evs @ [Responded ?id]) @ map Responded arrivals
            \<and> mset arrivals = mset ?others)"
    proof (cases r)
      case (Inl err)
      have "settle_all rt pending warnings evs w s
             = settle_all rt ?others (warnings @ [(?id, message err)]) (evs @ [Responded ?id]) w2 s2"
        using False n e Inl by (subst settle_all.simps) (simp add: Let_def)
      moreover note "1.IH"(1)[OF False n[symmetric] refl refl refl refl e[symmetric, unfolded Inl] refl]
      ultimately show ?thesis by blast
    next
      case (Inr v)
      have "settle_all rt pending warnings evs w s
             = settle_all rt ?others warnings (evs @ [Responded ?id]) w2 s2"
        using False n e Inr by (subst settle_all.simps) (simp add: Let_def)
      moreover note "1.IH"(2)[OF False n[symmetric] refl refl refl refl e[symmetric, unfolded Inr] refl]
      ultimately show ?thesis by blast
    qed
    then obtain ws arrivals where
      eq: "settle_all rt pending warnings evs w s
             = settle_all rt ?others ws (evs @ [Responded ?id]) w2 s2"
      and tr: "fst (snd (settle_all rt ?others ws (evs @ [Responded ?id]) w2 s2))
              = (evs @ [Responded ?id]) @ map Responded arrivals"
      and ms: "mset arrivals = mset ?others"
      by blast
    have "mset (?id # arrivals) = mset pending"
      using ms mset_remove_nth[OF i] by simp
    moreover have "fst (snd (settle_all rt pending warnings evs w s))
                     = evs @ map Responded (?id # arrivals)"
      using eq tr by simp
    ultimately show ?thesis by blast
  qed
qed

lemma settle_all_warned:
  "\<exists>fs. fst (settle_all rt pending warnings evs w s) = warnings @ fs
     \<and> set (map fst fs) \<subseteq> set pending"
proof (induction rt pending warnings evs w s rule: settle_all.induct)
  case (1 rt pending warnings evs w s)
  show ?case
  proof (cases "pending = []")
    case True
    then show ?thesis by (simp add: settle_all.simps)
  next
    case False
    obtain k w1 where n: "next_settled rt (length pending) w = (k, w1)"
      by (cases "next_settled rt (length pending) w")
    let ?i = "k mod length pending"
    let ?id = "pending ! ?i"
    let ?others = "take ?i pending @ drop (Suc ?i) pending"
    have i: "?i < length pending" using False by simp
    then have mem: "?id \<in> set pending" by simp
    have sub: "set ?others \<subseteq> set pending"
      using set_take_subset[of ?i pending] set_drop_subset[of "Suc ?i" pending] by auto
    obtain r w2 s2 where e: "getGroupInfo_end rt ?id w1 s = (r, w2, s2)"
      by (cases "getGroupInfo_end rt ?id w1 s") auto
    show ?thesis
    proof (cases r)
      case (Inl err)
      have eq: "settle_all rt pending warnings evs w s
             = settle_all rt ?others (warnings @ [(?id, message err)]) (evs @ [Responded ?id]) w2 s2"
        using False n e Inl by (subst settle_all.simps) (simp add: Let_def)
      from "1.IH"(1)[OF False n[symmetric] refl refl refl refl e[symmetric, unfolded Inl] refl]
      obtain fs where fs: "fst (settle_all rt ?others (warnings @ [(?id, message err)])
                                 (evs @ [Responded ?id]) w2 s2)
                             = (warnings @ [(?id, message err)]) @ fs"
        "set (map fst fs) \<subseteq> set ?others" by blast
      have "fst (settle_all rt pending warnings evs w s) = warnings @ ((?id, message err) # fs)"
        using eq fs(1) by simp
      moreover have "set (map fst ((?id, message err) # fs)) \<subseteq> set pending"
        using fs(2) sub mem by auto
      ultimately show ?thesis by blast
    next
      case (Inr v)
      have eq: "settle_all rt pending warnings evs w s
             = settle_all rt ?others warnings (evs @ [Responded ?id]) w2 s2"
        using False n e Inr by (subst settle_all.simps) (simp add: Let_def)
      from "1.IH"(2)[OF False n[symmetric] refl refl refl refl e[symmetric, unfolded Inr] refl]
      obtain fs where fs: "fst (settle_all rt ?others warnings (evs @ [Responded ?id]) w2 s2)
                             = warnings @ fs"
        "set (map fst fs) \<subseteq> set ?others" by blast
      then show ?thesis using eq sub by auto
    qed
  qed
qed

lemma dispatch_all_pending:
  "set (fst (dispatch_all rt batch pending evs w s)) \<subseteq> set pending \<union> set batch"
proof -
  from dispatch_all_trace[of batch rt pending evs w s]
  obtain hits where "fst (dispatch_all rt batch pending evs w s)
         = pending @ map fst (filter (\<lambda>(i, hit). \<not> hit) (zip batch hits))" by blast
  moreover have "set (map fst (filter (\<lambda>(i, hit). \<not> hit) (zip batch hits))) \<subseteq> set batch"
    by (auto dest: set_zip_leftD)
  ultimately show ?thesis by auto
qed

lemma chunks_step:
  "i < length ids \<Longrightarrow>
     chunks batchSize (drop i ids)
       = slice i (i + batchSize) ids # chunks batchSize (drop (i + batchSize) ids)"
  by (subst chunks.simps) (simp add: batchSize_def slice_def add.commute)

lemma preload_loop_log:
  "rounds (fst (preload_loop rt ids i l w s)) = rounds l @ chunks batchSize (drop i ids)
   \<and> caught (fst (preload_loop rt ids i l w s)) = caught l
   \<and> (\<exists>fs. warned (fst (preload_loop rt ids i l w s)) = warned l @ fs
          \<and> set (map fst fs) \<subseteq> set ids)
   \<and> (\<exists>evs'. events (fst (preload_loop rt ids i l w s)) = events l @ evs'
          \<and> rounds_trace (chunks batchSize (drop i ids)) evs')"
proof (induction rt ids i l w s rule: preload_loop.induct)
  case (1 rt ids i l w s)
  show ?case
  proof (cases "i < length ids")
    case False
    then show ?thesis by (simp add: preload_loop.simps chunks.simps)
  next
    case True
    let ?batch = "slice i (i + batchSize) ids"
    obtain pending evs1 w1 s1 where
      d: "dispatch_all rt ?batch [] (events l) w s = (pending, evs1, w1, s1)"
      by (cases "dispatch_all rt ?batch [] (events l) w s") auto
    obtain warnings evs2 w2 s2 where
      st: "settle_all rt pending [] evs1 w1 s1 = (warnings, evs2, w2, s2)"
      by (cases "settle_all rt pending [] evs1 w1 s1") auto
    let ?l' = "l\<lparr>rounds := rounds l @ [?batch],
                 progress := progress l @ [(min (i + batchSize) (length ids), length ids)],
                 warned := warned l @ warnings,
                 events := evs2\<rparr>"
    have eq: "preload_loop rt ids i l w s = preload_loop rt ids (i + batchSize) ?l' w2 s2"
      using True d st by (subst preload_loop.simps) (simp add: Let_def)
    note IH = "1.IH"[OF True refl refl d[symmetric] refl refl refl st[symmetric] refl refl]
    from dispatch_all_trace[of ?batch rt "[]" "events l" w s] d
    obtain hits where hits: "length hits = length ?batch"
      "evs1 = events l @ map2 dispatched ?batch hits"
      "pending = map fst (filter (\<lambda>(i, hit). \<not> hit) (zip ?batch hits))"
      by auto
    from settle_all_trace[of rt pending "[]" evs1 w1 s1] st
    obtain arrivals where arr: "evs2 = evs1 @ map Responded arrivals" "mset arrivals = mset pending"
      by auto
    from settle_all_warned[of rt pending "[]" evs1 w1 s1] st
    have wsub: "set (map fst warnings) \<subseteq> set pending" by auto
    have "set pending \<subseteq> set ?batch"
      using dispatch_all_pending[of rt ?batch "[]" "events l" w s] d by simp
    also have "\<dots> \<subseteq> set ids"
      unfolding slice_def using set_take_subset set_drop_subset by fast
    finally have psub: "set pending \<subseteq> set ids" .
    from IH obtain fs evs' where
      r: "rounds (fst (preload_loop rt ids (i + batchSize) ?l' w2 s2))
            = rounds ?l' @ chunks batchSize (drop (i + batchSize) ids)"
      and c: "caught (fst (preload_loop rt ids (i + batchSize) ?l' w2 s2)) = caught ?l'"
      and f: "warned (fst (preload_loop rt ids (i + batchSize) ?l' w2 s2)) = warned ?l' @ fs"
             "set (map fst fs) \<subseteq> set ids"
      and e: "events (fst (preload_loop rt ids (i + batchSize) ?l' w2 s2)) = events ?l' @ evs'"
             "rounds_trace (chunks batchSize (drop (i + batchSize) ids)) evs'"
      by blast
    have "rounds (fst (preload_loop rt ids i l w s)) = rounds l @ chunks batchSize (drop i ids)"
      using eq r chunks_step[OF True] by simp
    moreover have "caught (fst (preload_loop rt ids i l w s)) = caught l"
      using eq c by simp
    moreover have "warned (fst (preload_loop rt ids i l w s)) = warned l @ (warnings @ fs)"
      "set (map fst (warnings @ fs)) \<subseteq> set ids"
      using eq f wsub psub by auto
    moreover have "events (fst (preload_loop rt ids i l w s))
        = events l @ (map2 dispatched ?batch hits @ map Responded arrivals @ evs')"
      using eq e(1) hits(2) arr(1) by simp
    moreover have "rounds_trace (chunks batchSize (drop i ids))
        (map2 dispatched ?batch hits @ map Responded arrivals @ evs')"
      unfolding chunks_step[OF True] rounds_trace.simps
      by (rule exI[of _ hits], rule exI[of _ arrivals], rule exI[of _ evs'])
         (use hits(1,3) arr(2) e(2) in simp)
    ultimately show ?thesis by blast
  qed
qed

lemma failures_append: "failures (a @ b) = failures a @ failures b"
  by (induction a rule: failures.induct) auto

lemma responded_append: "responded (a @ b) = responded a @ responded b"
  by (induction a rule: responded.induct) auto

lemma responded_Responded: "responded (map (Responded \<circ> f) xs) = map f xs"
  by (induction xs) auto

lemma responded_dispatched: "responded (map2 dispatched xs hits) = []"
proof (induction xs arbitrary: hits)
  case Nil
  show ?case by simp
next
  case (Cons a xs)
  show ?case
  proof (cases hits)
    case Nil
    then show ?thesis by simp
  next
    case (Cons h hs)
    with Cons.IH[of hs] show ?thesis by (cases h) simp_all
  qed
qed

lemma settle_all_settled:
  "settle_all rt pending warnings evs w s =
     (case settled rt pending w s of
        (rs, w', s') \<Rightarrow> (warnings @ failures rs, evs @ map Responded (map fst rs), w', s'))"
proof (induction rt pending warnings evs w s rule: settle_all.induct)
  case (1 rt pending warnings evs w s)
  show ?case
  proof (cases "pending = []")
    case True
    then show ?thesis by (simp add: settle_all.simps settled.simps)
  next
    case False
    obtain k w1 where n: "next_settled rt (length pending) w = (k, w1)"
      by (cases "next_settled rt (length pending) w")
    let ?i = "k mod length pending"
    let ?id = "pending ! ?i"
    let ?others = "take ?i pending @ drop (Suc ?i) pending"
    obtain r w2 s2 where e: "getGroupInfo_end rt ?id w1 s = (r, w2, s2)"
      by (cases "getGroupInfo_end rt ?id w1 s") auto
    obtain rs w3 s3 where st: "settled rt ?others w2 s2 = (rs, w3, s3)"
      by (cases "settled rt ?others w2 s2") auto
    have ref: "settled rt pending w s = ((?id, r) # rs, w3, s3)"
      using False n e st by (subst settled.simps) (simp add: Let_def)
    show ?thesis
    proof (cases r)
      case (Inl err)
      have "settle_all rt pending warnings evs w s
             = settle_all rt ?others (warnings @ [(?id, message err)]) (evs @ [Responded ?id]) w2 s2"
        using False n e Inl by (subst settle_all.simps) (simp add: Let_def)
      also have "\<dots> = ((warnings @ [(?id, message err)]) @ failures rs,
                         (evs @ [Responded ?id]) @ map Responded (map fst rs), w3, s3)"
        using "1.IH"(1)[OF False n[symmetric] refl refl refl refl e[symmetric, unfolded Inl] refl] st
        by simp
      finally show ?thesis using ref Inl by simp
    next
      case (Inr v)
      have "settle_all rt pending warnings evs w s
             = settle_all rt ?others warnings (evs @ [Responded ?id]) w2 s2"
        using False n e Inr by (subst settle_all.simps) (simp add: Let_def)
      also have "\<dots> = (warnings @ failures rs,
                         (evs @ [Responded ?id]) @ map Responded (map fst rs), w3, s3)"
        using "1.IH"(2)[OF False n[symmetric] refl refl refl refl e[symmetric, unfolded Inr] refl] st
        by simp
      finally show ?thesis using ref Inr by simp
    qed
  qed
qed

lemma dispatch_all_events:
  "dispatch_all rt batch pending evs w s =
     (case dispatch_all rt batch pending [] w s of
        (p, d, w', s') \<Rightarrow> (p, evs @ d, w', s'))"
proof (induction batch arbitrary: pending evs w s)
  case Nil
  show ?case by simp
next
  case (Cons i batch)
  obtain c w1 s1 where g: "getGroupInfo_begin rt i w s = (c, w1, s1)"
    by (cases "getGroupInfo_begin rt i w s") auto
  show ?case
  proof (cases c)
    case Null
    show ?thesis
      using g Null Cons.IH[of "pending @ [i]" "evs @ [Requested i]" w1 s1]
        Cons.IH[of "pending @ [i]" "[Requested i]" w1 s1]
      by (simp split: prod.splits)
  next
    case (Val v)
    show ?thesis
      using g Val Cons.IH[of pending "evs @ [Hit i]" w1 s1] Cons.IH[of pending "[Hit i]" w1 s1]
      by (simp split: prod.splits)
  qed
qed

lemma dispatch_all_no_response:
  "responded (fst (snd (dispatch_all rt batch pending [] w s))) = []"
proof -
  from dispatch_all_trace[of batch rt pending "[]" w s]
  obtain hits where "fst (snd (dispatch_all rt batch pending [] w s)) = map2 dispatched batch hits"
    by auto
  then show ?thesis by (simp only: responded_dispatched)
qed

lemma preload_loop_responses:
  "warned (fst (preload_loop rt ids i l w s))
     = warned l @ failures (preload_responses rt ids i w s)
   \<and> responded (events (fst (preload_loop rt ids i l w s)))
     = responded (events l) @ map fst (preload_responses rt ids i w s)"
proof (induction rt ids i l w s rule: preload_loop.induct)
  case (1 rt ids i l w s)
  show ?case
  proof (cases "i < length ids")
    case False
    then show ?thesis by (simp add: preload_loop.simps preload_responses.simps)
  next
    case True
    let ?batch = "slice i (i + batchSize) ids"
    obtain pending d w1 s1 where
      d0: "dispatch_all rt ?batch [] [] w s = (pending, d, w1, s1)"
      by (cases "dispatch_all rt ?batch [] [] w s") auto
    have d: "dispatch_all rt ?batch [] (events l) w s = (pending, events l @ d, w1, s1)"
      using dispatch_all_events[of rt ?batch "[]" "events l" w s] d0 by simp
    have nores: "responded d = []"
      using dispatch_all_no_response[of rt ?batch "[]" w s] d0 by simp
    obtain rs w2 s2 where r: "settled rt pending w1 s1 = (rs, w2, s2)"
      by (cases "settled rt pending w1 s1") auto
    have st: "settle_all rt pending [] (events l @ d) w1 s1
                = (failures rs, (events l @ d) @ map Responded (map fst rs), w2, s2)"
      using settle_all_settled[of rt pending "[]" "events l @ d" w1 s1] r by simp
    let ?l' = "l\<lparr>rounds := rounds l @ [?batch],
                 progress := progress l @ [(min (i + batchSize) (length ids), length ids)],
                 warned := warned l @ failures rs,
                 events := (events l @ d) @ map Responded (map fst rs)\<rparr>"
    have eq: "preload_loop rt ids i l w s = preload_loop rt ids (i + batchSize) ?l' w2 s2"
      using True d st by (subst preload_loop.simps) (simp add: Let_def)
    have ref: "preload_responses rt ids i w s = rs @ preload_responses rt ids (i + batchSize) w2 s2"
      using True d0 r by (subst preload_responses.simps) (simp add: Let_def)
    note IH = "1.IH"[OF True refl refl d[symmetric] refl refl refl st[symmetric] refl refl]
    show ?thesis
      using IH eq ref nores
      by (simp add: failures_append responded_append responded_Responded)
  qed
qed

lemma preload_after_listing:
  assumes "getInterfaceList rt projectId w s = (Inr (CategoryList interfaces), w1, s1)"
  shows "fst (snd (preloadInterfaceData rt projectId w s))
           = fst (preload_loop rt (collect_ids interfaces) 0
                    \<lparr>rounds = [], progress = [], warned = [], caught = None, events = []\<rparr> w1 s1)"
  using assms
  by (simp add: preloadInterfaceData_def preload_try_def split: prod.splits)

lemma preload_listing_failed:
  assumes "fst (getInterfaceList rt projectId w s) = Inl e"
  shows "preloadInterfaceData rt projectId w s
           = (Inr (), \<lparr>rounds = [], progress = [], warned = [], caught = Some (message e),
                events = []\<rparr>, snd (getInterfaceList rt projectId w s))"
  using assms
  by (cases "getInterfaceList rt projectId w s")
     (simp add: preloadInterfaceData_def preload_try_def)

lemma preload_resolves: "fst (preloadInterfaceData rt projectId w s) = Inr ()"
  by (simp add: preloadInterfaceData_def split: prod.splits sum.splits)

text \<open>
  C5, as the code has it. \<open>batchGetGroupInfo\<close> does not chunk: it awaits one fetch at a
  time, so a list of \<open>N\<close> identifiers takes \<open>N\<close> rounds of one identifier each. The
  preload, once it has the list of identifiers, cuts it into consecutive chunks of at
  most 5 (a constant of the code), in the original order, and runs one round per chunk,
  \<open>ceil(N / 5)\<close> rounds in all; in each round every identifier of the chunk is
  dispatched before any response of the round is handled, and every response of the
  round is handled before the next round begins.
\<close>

theorem batch_rounds:
  "awaited (fst (batchGetGroupInfo rt ids w s)) = map (\<lambda>i. [i]) ids
   \<and> (getInterfaceList rt projectId w s = (Inr (CategoryList interfaces), w1, s1) \<longrightarrow>
        rounds (fst (snd (preloadInterfaceData rt projectId w s)))
          = chunks batchSize (collect_ids interfaces)
      \<and> concat (rounds (fst (snd (preloadInterfaceData rt projectId w s))))
          = collect_ids interfaces
      \<and> (\<forall>r \<in> set (rounds (fst (snd (preloadInterfaceData rt projectId w s)))).
            0 < length r \<and> length r \<le> 5)
      \<and> length (rounds (fst (snd (preloadInterfaceData rt projectId w s))))
          = (length (collect_ids interfaces) + 4) div 5
      \<and> rounds_trace (rounds (fst (snd (preloadInterfaceData rt projectId w s))))
           (events (fst (snd (preloadInterfaceData rt projectId w s)))))"
proof (intro conjI impI)
  show "awaited (fst (batchGetGroupInfo rt ids w s)) = map (\<lambda>i. [i]) ids"
    using batch_loop_log[of rt ids "\<lparr>results = [], errors = [], awaited = []\<rparr>" w s]
    by (simp add: batchGetGroupInfo_def)
next
  assume listing: "getInterfaceList rt projectId w s = (Inr (CategoryList interfaces), w1, s1)"
  let ?ids = "collect_ids interfaces"
  let ?L = "fst (snd (preloadInterfaceData rt projectId w s))"
  let ?l0 = "\<lparr>rounds = [], progress = [], warned = [], caught = None, events = []\<rparr>"
  have L: "?L = fst (preload_loop rt ?ids 0 ?l0 w1 s1)"
    using listing by (rule preload_after_listing)
  from preload_loop_log[of rt ?ids 0 ?l0 w1 s1]
  have r: "rounds ?L = chunks batchSize ?ids"
    and t: "rounds_trace (chunks batchSize ?ids) (events ?L)"
    unfolding L by auto
  show "rounds ?L = chunks batchSize ?ids" by (rule r)
  show "concat (rounds ?L) = ?ids" unfolding r by (simp add: concat_chunks batchSize_def)
  show "\<forall>r \<in> set (rounds ?L). 0 < length r \<and> length r \<le> 5"
    unfolding r using chunks_sizes[of _ batchSize ?ids] by (simp add: batchSize_def)
  show "length (rounds ?L) = (length ?ids + 4) div 5"
    unfolding r by (simp add: length_chunks batchSize_def)
  show "rounds_trace (rounds ?L) (events ?L)" unfolding r by (rule t)
qed

theorem batch_rounds_witness:
  "awaited (fst (batchGetGroupInfo demo_runtime [1, 2, 3, 4, 5, 6] 0 demo_store))
     = [[1], [2], [3], [4], [5], [6]]
   \<and> rounds (fst (snd (preloadInterfaceData demo_runtime 1 0 demo_store)))
     = [[1, 2, 3, 4, 5], [6]]
   \<and> events (fst (snd (preloadInterfaceData demo_runtime 1 0 demo_store)))
     = [Requested 1, Requested 2, Requested 3, Requested 4, Requested 5,
        Responded 4, Responded 5, Responded 3, Responded 2, Responded 1,
        Requested 6, Responded 6]
   \<and> rounds_trace [[1, 2, 3, 4, 5], [6]]
        (events (fst (snd (preloadInterfaceData demo_runtime 1 0 demo_store))))"
proof -
  have listing: "getInterfaceList demo_runtime 1 0 demo_store
      = (Inr (CategoryList [demo_category [1, 2, 3], demo_category [4, 5, 6]]),
         fst (snd (getInterfaceList demo_runtime 1 0 demo_store)),
         snd (snd (getInterfaceList demo_runtime 1 0 demo_store)))"
    by (simp add: eval_fetch eval_key eval_cache)
  have r: "rounds (fst (snd (preloadInterfaceData demo_runtime 1 0 demo_store)))
     = [[1, 2, 3, 4, 5], [6]]"
    by code_simp
  have e: "events (fst (snd (preloadInterfaceData demo_runtime 1 0 demo_store)))
     = [Requested 1, Requested 2, Requested 3, Requested 4, Requested 5,
        Responded 4, Responded 5, Responded 3, Responded 2, Responded 1,
        Requested 6, Responded 6]"
    by code_simp
  from batch_rounds [of demo_runtime "[1, 2, 3, 4, 5, 6]" 0 demo_store 1
      "[demo_category [1, 2, 3], demo_category [4, 5, 6]]"
      "fst (snd (getInterfaceList demo_runtime 1 0 demo_store))"
      "snd (snd (getInterfaceList demo_runtime 1 0 demo_store))"] listing
  have "awaited (fst (batchGetGroupInfo demo_runtime [1, 2, 3, 4, 5, 6] 0 demo_store))
          = map (\<lambda>i. [i]) [1, 2, 3, 4, 5, 6]"
    and "rounds_trace (rounds (fst (snd (preloadInterfaceData demo_runtime 1 0 demo_store))))
           (events (fst (snd (preloadInterfaceData demo_runtime 1 0 demo_store))))"
    by blast+
  then show ?thesis using r e by simp
qed

theorem batch_rounds_counterexample:
  "awaited (fst (batchGetGroupInfo demo_runtime [1, 2, 3, 4, 5, 6] 0 demo_store))
     = [[1], [2], [3], [4], [5], [6]]
   \<and> length (awaited (fst (batchGetGroupInfo demo_runtime [1, 2, 3, 4, 5, 6] 0 demo_store)))
     \<noteq> (length [1, 2, 3, 4, 5, 6 :: int] + 4) div 5"
  by (simp add: batchGetGroupInfo_def eval_fetch eval_key eval_cache)

text \<open>
  C6, as the code has it. The preload never fails outward: its promise is always
  fulfilled. When the listing fails, the error is caught, its message is printed, no
  round is run and the function returns; nothing is thrown to the caller. When the
  listing succeeds, nothing is caught and the rounds run over all identifiers; the
  responses handled are those of \<open>preload_responses\<close>, in that order, and the warnings
  printed are exactly the ones among them that are errors, each with its identifier and
  the message of its error: a fetch that fails is reported and nothing more.
\<close>

theorem preload_never_fails:
  "fst (preloadInterfaceData rt projectId w s) = Inr ()
   \<and> (fst (getInterfaceList rt projectId w s) = Inl e \<longrightarrow>
        preloadInterfaceData rt projectId w s
          = (Inr (), \<lparr>rounds = [], progress = [], warned = [], caught = Some (message e),
               events = []\<rparr>, snd (getInterfaceList rt projectId w s)))
   \<and> (getInterfaceList rt projectId w s = (Inr (CategoryList interfaces), w1, s1) \<longrightarrow>
        caught (fst (snd (preloadInterfaceData rt projectId w s))) = None
      \<and> rounds (fst (snd (preloadInterfaceData rt projectId w s)))
          = chunks batchSize (collect_ids interfaces)
      \<and> warned (fst (snd (preloadInterfaceData rt projectId w s)))
          = failures (preload_responses rt (collect_ids interfaces) 0 w1 s1)
      \<and> responded (events (fst (snd (preloadInterfaceData rt projectId w s))))
          = map fst (preload_responses rt (collect_ids interfaces) 0 w1 s1)
      \<and> set (map fst (warned (fst (snd (preloadInterfaceData rt projectId w s)))))
          \<subseteq> set (collect_ids interfaces))"
proof (intro conjI impI)
  show "fst (preloadInterfaceData rt projectId w s) = Inr ()" by (rule preload_resolves)
next
  assume "fst (getInterfaceList rt projectId w s) = Inl e"
  then show "preloadInterfaceData rt projectId w s
          = (Inr (), \<lparr>rounds = [], progress = [], warned = [], caught = Some (message e),
               events = []\<rparr>, snd (getInterfaceList rt projectId w s))"
    by (rule preload_listing_failed)
next
  assume listing: "getInterfaceList rt projectId w s = (Inr (CategoryList interfaces), w1, s1)"
  let ?ids = "collect_ids interfaces"
  let ?L = "fst (snd (preloadInterfaceData rt projectId w s))"
  let ?l0 = "\<lparr>rounds = [], progress = [], warned = [], caught = None, events = []\<rparr>"
  have L: "?L = fst (preload_loop rt ?ids 0 ?l0 w1 s1)"
    using listing by (rule preload_after_listing)
  from preload_loop_log[of rt ?ids 0 ?l0 w1 s1]
  show "caught ?L = None" and "rounds ?L = chunks batchSize ?ids"
    and "set (map fst (warned ?L)) \<subseteq> set ?ids"
    unfolding L by auto
  from preload_loop_responses[of rt ?ids 0 ?l0 w1 s1]
  show "warned ?L = failures (preload_responses rt ?ids 0 w1 s1)"
    and "responded (events ?L) = map fst (preload_responses rt ?ids 0 w1 s1)"
    unfolding L by simp_all
qed

theorem preload_never_fails_witness:
  "preloadInterfaceData demo_runtime 3 0 demo_store
     = (Inr (), \<lparr>rounds = [], progress = [], warned = [], caught = Some list_unknown_error,
          events = []\<rparr>, 2, demo_store)
   \<and> fst (preloadInterfaceData demo_runtime 4 0 demo_store) = Inr ()
   \<and> warned (fst (snd (preloadInterfaceData demo_runtime 4 0 demo_store)))
     = [(8, detail_unknown_error), (7, ''API Error: not found (errcode: 404)'')]
   \<and> rounds (fst (snd (preloadInterfaceData demo_runtime 4 0 demo_store))) = [[6, 7, 8]]
   \<and> failures (preload_responses demo_runtime [6, 7, 8] 0
         (fst (snd (getInterfaceList demo_runtime 4 0 demo_store)))
         (snd (snd (getInterfaceList demo_runtime 4 0 demo_store))))
     = [(8, detail_unknown_error), (7, ''API Error: not found (errcode: 404)'')]"
proof -
  have failed: "fst (getInterfaceList demo_runtime 3 0 demo_store) = Inl (Error list_unknown_error)"
    by (simp add: eval_fetch eval_key eval_cache)
  have rest: "snd (getInterfaceList demo_runtime 3 0 demo_store) = (2, demo_store)"
    by (simp add: eval_fetch eval_key eval_cache)
  have listing: "getInterfaceList demo_runtime 4 0 demo_store
      = (Inr (CategoryList [demo_category [6, 7, 8]]),
         fst (snd (getInterfaceList demo_runtime 4 0 demo_store)),
         snd (snd (getInterfaceList demo_runtime 4 0 demo_store)))"
    by (simp add: eval_fetch eval_key eval_cache)
  have w: "warned (fst (snd (preloadInterfaceData demo_runtime 4 0 demo_store)))
     = [(8, detail_unknown_error), (7, ''API Error: not found (errcode: 404)'')]"
    by code_simp
  have c: "chunks batchSize (collect_ids [demo_category [6, 7, 8]]) = [[6, 7, 8]]"
    by (simp add: chunks.simps batchSize_def collect_ids_def demo_category_def demo_child_def)
  from preload_never_fails [of demo_runtime 3 0 demo_store "Error list_unknown_error"] failed rest
  have a: "preloadInterfaceData demo_runtime 3 0 demo_store
     = (Inr (), \<lparr>rounds = [], progress = [], warned = [], caught = Some list_unknown_error,
          events = []\<rparr>, 2, demo_store)"
    by simp
  from preload_never_fails [of demo_runtime 4 0 demo_store _ "[demo_category [6, 7, 8]]"
      "fst (snd (getInterfaceList demo_runtime 4 0 demo_store))"
      "snd (snd (getInterfaceList demo_runtime 4 0 demo_store))"] listing c
  have b: "fst (preloadInterfaceData demo_runtime 4 0 demo_store) = Inr ()"
    "rounds (fst (snd (preloadInterfaceData demo_runtime 4 0 demo_store))) = [[6, 7, 8]]"
    "warned (fst (snd (preloadInterfaceData demo_runtime 4 0 demo_store)))
       = failures (preload_responses demo_runtime (collect_ids [demo_category [6, 7, 8]]) 0
           (fst (snd (getInterfaceList demo_runtime 4 0 demo_store)))
           (snd (snd (getInterfaceList demo_runtime 4 0 demo_store))))"
    by simp_all
  have ids: "collect_ids [demo_category [6, 7, 8]] = [6, 7, 8]"
    by (simp add: collect_ids_def demo_category_def demo_child_def)
  show ?thesis using a b w ids by simp
qed

theorem preload_swallows_listing_failure:
  "fst (getInterfaceList demo_runtime 3 0 demo_store) = Inl (Error list_unknown_error)
   \<and> fst (preloadInterfaceData demo_runtime 3 0 demo_store) = Inr ()"
  by (simp add: preloadInterfaceData_def preload_try_def eval_fetch eval_key eval_cache)

section \<open>Properties of the configuration\<close>

lemma parse_step_positive:
  assumes "ttl_opt (cacheConfig c) = Some t" "0 < t" "maxSize_opt (cacheConfig c) = Some m" "0 < m"
  shows "\<exists>t' m'. ttl_opt (cacheConfig (fst (parse_step parseInt arg nextArg c))) = Some t' \<and> 0 < t'
           \<and> maxSize_opt (cacheConfig (fst (parse_step parseInt arg nextArg c))) = Some m' \<and> 0 < m'"
  using assms by (auto simp: parse_step_def split: option.splits)

lemma parse_loop_positive:
  assumes "ttl_opt (cacheConfig c) = Some t" "0 < t" "maxSize_opt (cacheConfig c) = Some m" "0 < m"
  shows "\<exists>t' m'. ttl_opt (cacheConfig (parse_loop parseInt args c)) = Some t' \<and> 0 < t'
           \<and> maxSize_opt (cacheConfig (parse_loop parseInt args c)) = Some m' \<and> 0 < m'"
  using assms
proof (induction parseInt args c arbitrary: t m rule: parse_loop.induct)
  case (1 parseInt c)
  then show ?case by simp
next
  case (2 parseInt arg rest c)
  let ?nextArg = "case rest of [] \<Rightarrow> [] | n # _ \<Rightarrow> n"
  obtain c' skip where st: "parse_step parseInt arg ?nextArg c = (c', skip)"
    by (cases "parse_step parseInt arg ?nextArg c")
  from parse_step_positive[OF "2.prems", of parseInt arg ?nextArg] st
  obtain t' m' where p: "ttl_opt (cacheConfig c') = Some t'" "0 < t'"
    "maxSize_opt (cacheConfig c') = Some m'" "0 < m'" by auto
  from "2.IH"[OF refl refl st[symmetric] p]
  show ?case using st by (simp add: Let_def)
qed

lemma getConfigFromArgs_positive:
  assumes "getConfigFromArgs parseInt argv = Inr cfg"
  shows "\<exists>t m. ttl_opt (cacheConfig cfg) = Some t \<and> 0 < t
           \<and> maxSize_opt (cacheConfig cfg) = Some m \<and> 0 < m"
proof -
  let ?c0 = "\<lparr>baseURL = [], cookie = [], requestParams = [],
                 cacheConfig = \<lparr>ttl_opt = Some (5 * 60 * 1000), maxSize_opt = Some 100,
                                enabled_opt = Some True\<rparr>\<rparr>"
  have "cfg = parse_loop parseInt (drop 2 argv) ?c0"
    using assms by (simp add: getConfigFromArgs_def Let_def split: if_splits)
  moreover have "\<exists>t m. ttl_opt (cacheConfig (parse_loop parseInt (drop 2 argv) ?c0)) = Some t \<and> 0 < t
           \<and> maxSize_opt (cacheConfig (parse_loop parseInt (drop 2 argv) ?c0)) = Some m \<and> 0 < m"
    by (rule parse_loop_positive[of ?c0 "5 * 60 * 1000" 100]) simp_all
  ultimately show ?thesis by simp
qed

lemmas eval_cli = getConfigFromArgs_def parse_step_def startsWith_def demo_parseInt_def Let_def

text \<open>
  C9, as the code has it. The constructor replaces a \<open>ttl\<close> or \<open>maxSize\<close> that is absent
  or \<open>0\<close> by 300000 and 100 and keeps every other value, a negative one too: the
  constructed store has \<open>ttl \<noteq> 0\<close> and \<open>maxSize \<noteq> 0\<close>, and \<open>ttl > 0\<close> and
  \<open>maxSize > 0\<close> when the given values are not negative. \<open>enabled\<close> is true unless it
  is given as false. The command-line parser takes a ttl or size only when it parses to
  a number greater than 0, so the configuration it returns, and the store constructed
  from it, have \<open>ttl > 0\<close> and \<open>maxSize > 0\<close>.
\<close>

theorem constructed_config:
  "ttl (config (ApiCache_constructor c :: 'v ApiCache))
     = (case ttl_opt c of None \<Rightarrow> 300000 | Some t \<Rightarrow> if t = 0 then 300000 else t)
   \<and> maxSize (config (ApiCache_constructor c :: 'v ApiCache))
     = (case maxSize_opt c of None \<Rightarrow> 100 | Some m \<Rightarrow> if m = 0 then 100 else m)
   \<and> enabled (config (ApiCache_constructor c :: 'v ApiCache)) = (enabled_opt c \<noteq> Some False)
   \<and> ttl (config (ApiCache_constructor c :: 'v ApiCache)) \<noteq> 0
   \<and> maxSize (config (ApiCache_constructor c :: 'v ApiCache)) \<noteq> 0
   \<and> ((case ttl_opt c of None \<Rightarrow> True | Some t \<Rightarrow> 0 \<le> t)
        \<longrightarrow> 0 < ttl (config (ApiCache_constructor c :: 'v ApiCache)))
   \<and> ((case maxSize_opt c of None \<Rightarrow> True | Some m \<Rightarrow> 0 \<le> m)
        \<longrightarrow> 0 < maxSize (config (ApiCache_constructor c :: 'v ApiCache)))
   \<and> (getConfigFromArgs parseInt argv = Inr cfg \<longrightarrow>
        (\<exists>t m. ttl_opt (cacheConfig cfg) = Some t \<and> 0 < t
               \<and> maxSize_opt (cacheConfig cfg) = Some m \<and> 0 < m)
        \<and> 0 < ttl (config (ApiCache_constructor (cacheConfig cfg) :: 'v ApiCache))
        \<and> 0 < maxSize (config (ApiCache_constructor (cacheConfig cfg) :: 'v ApiCache)))"
proof -
  have cli: "getConfigFromArgs parseInt argv = Inr cfg \<Longrightarrow>
        (\<exists>t m. ttl_opt (cacheConfig cfg) = Some t \<and> 0 < t
               \<and> maxSize_opt (cacheConfig cfg) = Some m \<and> 0 < m)
        \<and> 0 < ttl (config (ApiCache_constructor (cacheConfig cfg) :: 'v ApiCache))
        \<and> 0 < maxSize (config (ApiCache_constructor (cacheConfig cfg) :: 'v ApiCache))"
  proof -
    assume "getConfigFromArgs parseInt argv = Inr cfg"
    from getConfigFromArgs_positive[OF this]
    obtain t m where p: "ttl_opt (cacheConfig cfg) = Some t" "0 < t"
      "maxSize_opt (cacheConfig cfg) = Some m" "0 < m" by blast
    then show ?thesis by (simp add: ApiCache_constructor_def or_default_def)
  qed
  show ?thesis
    using cli by (auto simp: ApiCache_constructor_def or_default_def split: option.splits)
qed

theorem constructed_config_witness:
  "config (ApiCache_constructor \<lparr>ttl_opt = Some 0, maxSize_opt = None, enabled_opt = None\<rparr>
            :: nat ApiCache)
     = \<lparr>ttl = 300000, maxSize = 100, enabled = True\<rparr>
   \<and> getConfigFromArgs demo_parseInt
        [''node'', ''script.js'', ''-u'', ''http://y'', ''-c'', ''sid=1'',
         ''--cache-ttl'', ''10'', ''--cache-size'', ''-3'', ''-s'', ''0'', ''-t'', ''abc'']
     = Inr \<lparr>baseURL = ''http://y'', cookie = ''sid=1'', requestParams = [],
            cacheConfig = \<lparr>ttl_opt = Some 600000, maxSize_opt = Some 100,
                           enabled_opt = Some True\<rparr>\<rparr>
   \<and> config (ApiCache_constructor \<lparr>ttl_opt = Some 600000, maxSize_opt = Some 100,
                 enabled_opt = Some True\<rparr> :: nat ApiCache)
     = \<lparr>ttl = 600000, maxSize = 100, enabled = True\<rparr>"
  using constructed_config [of "\<lparr>ttl_opt = Some 0, maxSize_opt = None, enabled_opt = None\<rparr>"
      demo_parseInt
      "[''node'', ''script.js'', ''-u'', ''http://y'', ''-c'', ''sid=1'',
         ''--cache-ttl'', ''10'', ''--cache-size'', ''-3'', ''-s'', ''0'', ''-t'', ''abc'']"
      "\<lparr>baseURL = ''http://y'', cookie = ''sid=1'', requestParams = [],
            cacheConfig = \<lparr>ttl_opt = Some 600000, maxSize_opt = Some 100,
                           enabled_opt = Some True\<rparr>\<rparr>", where ?'v = nat]
  by (simp add: eval_cli ApiCache_constructor_def or_default_def)

theorem negative_config_kept:
  "\<not> (0 < ttl (config (ApiCache_constructor
          \<lparr>ttl_opt = Some (- 1), maxSize_opt = Some (- 5), enabled_opt = None\<rparr> :: nat ApiCache)))
   \<and> \<not> (0 < maxSize (config (ApiCache_constructor
          \<lparr>ttl_opt = Some (- 1), maxSize_opt = Some (- 5), enabled_opt = None\<rparr> :: nat ApiCache)))"
  by (simp add: ApiCache_constructor_def or_default_def)

end
